theory Spec2Isabelle
  imports Complex_Main
begin

section \<open>Python values used by cal.py\<close>

text \<open>
  The script is Python. Exceptions are values of \<open>py_error\<close>; a computation that can raise
  returns \<open>py_error + 'a\<close> with \<open>Inl\<close> for the exception (\<open>HttpError\<close> stands for any
  failure of a remote call). Python's unbounded integers are
  \<open>int\<close>. Python's floats (the duration in minutes and its mean) are modelled by exact
  rationals: every comparison the script makes is against 15, 30, 60 and 120, which are
  exact in binary floating point, and a duration is a whole number of microseconds.
\<close>

datatype py_error = TypeError | ValueError | KeyError | HttpError string

subsection \<open>datetime.date and datetime.datetime\<close>

record date =
  year :: int
  month :: int
  day :: int

text \<open>\<open>utcoffset\<close> is the offset of an aware datetime in microseconds, \<open>None\<close> for a naive one.\<close>

record datetime = date +
  hour :: int
  minute :: int
  second :: int
  microsecond :: int
  utcoffset :: "int option"

definition is_leap :: "int \<Rightarrow> bool" where
  "is_leap y \<longleftrightarrow> y mod 4 = 0 \<and> (y mod 100 \<noteq> 0 \<or> y mod 400 = 0)"

definition days_before_year :: "int \<Rightarrow> int" where
  "days_before_year y = (let y1 = y - 1 in y1 * 365 + y1 div 4 - y1 div 100 + y1 div 400)"

definition DAYS_IN_MONTH :: "int list" where
  "DAYS_IN_MONTH = [31, 28, 31, 30, 31, 30, 31, 31, 30, 31, 30, 31]"

definition DAYS_BEFORE_MONTH :: "int list" where
  "DAYS_BEFORE_MONTH = [0, 31, 59, 90, 120, 151, 181, 212, 243, 273, 304, 334]"

definition days_in_month :: "int \<Rightarrow> int \<Rightarrow> int" where
  "days_in_month y m = (if m = 2 \<and> is_leap y then 29 else DAYS_IN_MONTH ! nat (m - 1))"

definition days_before_month :: "int \<Rightarrow> int \<Rightarrow> int" where
  "days_before_month y m =
     DAYS_BEFORE_MONTH ! nat (m - 1) + (if m > 2 \<and> is_leap y then 1 else 0)"

text \<open>The dates a \<open>datetime.date\<close> object can hold.\<close>

definition valid_date :: "'a date_scheme \<Rightarrow> bool" where
  "valid_date d \<longleftrightarrow>
     1 \<le> year d \<and> year d \<le> 9999 \<and> 1 \<le> month d \<and> month d \<le> 12 \<and>
     1 \<le> day d \<and> day d \<le> days_in_month (year d) (month d)"

definition toordinal :: "'a date_scheme \<Rightarrow> int" where
  "toordinal d = days_before_year (year d) + days_before_month (year d) (month d) + day d"

definition weekday :: "'a date_scheme \<Rightarrow> int" where
  "weekday d = (toordinal d + 6) mod 7"

definition DAY_NAMES :: "string list" where
  "DAY_NAMES = [''Monday'', ''Tuesday'', ''Wednesday'', ''Thursday'', ''Friday'',
                ''Saturday'', ''Sunday'']"

text \<open>\<open>strftime("%A")\<close> in the C locale, which the script never changes.\<close>

definition strftime_A :: "'a date_scheme \<Rightarrow> string" where
  "strftime_A d = DAY_NAMES ! nat (weekday d)"

text \<open>\<open>datetime.date()\<close>: the calendar date of the datetime's own wall clock.\<close>

definition date_of :: "datetime \<Rightarrow> date" where
  "date_of dt = \<lparr>year = year dt, month = month dt, day = day dt\<rparr>"

text \<open>
  \<open>a - b\<close> on datetimes, as a timedelta in microseconds: both naive, or both aware
  (then the offsets are taken into account); mixing the two raises TypeError.
\<close>

definition datetime_sub :: "datetime \<Rightarrow> datetime \<Rightarrow> py_error + int" where
  "datetime_sub a b =
     (let secs1 = second a + minute a * 60 + hour a * 3600;
          secs2 = second b + minute b * 60 + hour b * 3600;
          base = ((toordinal a - toordinal b) * 86400 + (secs1 - secs2)) * 1000000
                 + (microsecond a - microsecond b)
      in case utcoffset a of
           None \<Rightarrow> (case utcoffset b of None \<Rightarrow> Inr base | Some _ \<Rightarrow> Inl TypeError)
         | Some myoff \<Rightarrow>
             (case utcoffset b of None \<Rightarrow> Inl TypeError
              | Some otoff \<Rightarrow> Inr (base + otoff - myoff)))"

definition total_seconds :: "int \<Rightarrow> rat" where
  "total_seconds td = of_int td / 1000000"

subsection \<open>Strings\<close>

text \<open>\<open>s.replace('Z', '+00:00')\<close>\<close>

definition replace_Z :: "string \<Rightarrow> string" where
  "replace_Z s = concat (map (\<lambda>c. if c = CHR ''Z'' then ''+00:00'' else [c]) s)"

subsection \<open>The standard-library parsers\<close>

text \<open>
  \<open>datetime.fromisoformat\<close> and \<open>datetime.strptime(_, "%Y-%m-%d")\<close> are parameters of the
  model; \<open>None\<close> stands for the ValueError they raise on a string they reject.
\<close>

record stdlib =
  fromisoformat :: "string \<Rightarrow> datetime option"
  strptime :: "string \<Rightarrow> datetime option"

section \<open>Events\<close>

text \<open>
  An event as the remote service returns it: \<open>start\<close> and \<open>end\<close> hold a \<open>dateTime\<close>
  string (timed event) or a \<open>date\<close> string (all-day event); the other keys are optional.
\<close>

record time_marker =
  dateTime :: "string option"
  date_str :: "string option"

record event =
  start :: time_marker
  end' :: time_marker
  summary :: "string option"
  description :: "string option"
  location :: "string option"
  colorId :: "string option"

text \<open>\<open>event['start'].get('dateTime', event['start'].get('date'))\<close>\<close>

definition start_string :: "event \<Rightarrow> string option" where
  "start_string e =
     (case dateTime (start e) of Some s \<Rightarrow> Some s | None \<Rightarrow> date_str (start e))"

text \<open>
  The parse of the start marker, written out three times in the script (heatmap, list
  view, weekday count): a string containing \<open>T\<close> goes to \<open>fromisoformat\<close>, any other to
  \<open>strptime\<close>; with neither key present \<open>'T' in None\<close> raises TypeError.
\<close>

definition parse_start :: "stdlib \<Rightarrow> event \<Rightarrow> py_error + datetime" where
  "parse_start L e =
     (case start_string e of
        None \<Rightarrow> Inl TypeError
      | Some s \<Rightarrow>
          if CHR ''T'' \<in> set s
          then (case fromisoformat L (replace_Z s) of
                  None \<Rightarrow> Inl ValueError | Some dt \<Rightarrow> Inr dt)
          else (case strptime L s of
                  None \<Rightarrow> Inl ValueError | Some dt \<Rightarrow> Inr dt))"

section \<open>Duration analysis (analytics view)\<close>

text \<open>
  A timed event has a start and an end \<open>dateTime\<close>: both keys present and, as the test
  \<open>if start and end\<close> reads them, neither the empty string.
\<close>

definition has_value :: "string option \<Rightarrow> bool" where
  "has_value v = (case v of None \<Rightarrow> False | Some s \<Rightarrow> s \<noteq> [])"

definition is_timed :: "event \<Rightarrow> bool" where
  "is_timed e \<longleftrightarrow> has_value (dateTime (start e)) \<and> has_value (dateTime (end' e))"

text \<open>
  What the script assumes of a timed event: both timestamps parse, and both are aware or
  both are naive, so that their difference is defined.
\<close>

definition well_timed :: "stdlib \<Rightarrow> event \<Rightarrow> bool" where
  "well_timed L e =
     (case dateTime (start e) of None \<Rightarrow> False | Some s \<Rightarrow>
     (case dateTime (end' e) of None \<Rightarrow> False | Some t \<Rightarrow>
     (case fromisoformat L (replace_Z s) of None \<Rightarrow> False | Some a \<Rightarrow>
     (case fromisoformat L (replace_Z t) of None \<Rightarrow> False | Some b \<Rightarrow>
        (utcoffset a = None) = (utcoffset b = None)))))"

record timed_event =
  te_summary :: string
  duration_minutes :: rat

text \<open>
  The body of the loop that builds \<open>timed_events\<close>: \<open>Inr None\<close> when the event is skipped,
  \<open>Inr (Some r)\<close> when a record is appended, \<open>Inl\<close> when a parse or the subtraction raises.
\<close>

definition timed_event_of :: "stdlib \<Rightarrow> event \<Rightarrow> py_error + timed_event option" where
  "timed_event_of L e =
     (case dateTime (start e) of
        None \<Rightarrow> Inr None
      | Some s \<Rightarrow>
     (case dateTime (end' e) of
        None \<Rightarrow> Inr None
      | Some t \<Rightarrow>
          if s \<noteq> [] \<and> t \<noteq> [] then
            (case fromisoformat L (replace_Z s) of
               None \<Rightarrow> Inl ValueError
             | Some start_dt \<Rightarrow>
                 (case fromisoformat L (replace_Z t) of
                    None \<Rightarrow> Inl ValueError
                  | Some end_dt \<Rightarrow>
                      (case datetime_sub end_dt start_dt of
                         Inl err \<Rightarrow> Inl err
                       | Inr td \<Rightarrow>
                           Inr (Some \<lparr>te_summary = (case summary e of
                                                       None \<Rightarrow> ''Untitled'' | Some x \<Rightarrow> x),
                                      duration_minutes = total_seconds td / 60\<rparr>))))
          else Inr None))"

fun timed_events :: "stdlib \<Rightarrow> event list \<Rightarrow> py_error + timed_event list" where
  "timed_events L [] = Inr []"
| "timed_events L (e # es) =
     (case timed_event_of L e of
        Inl err \<Rightarrow> Inl err
      | Inr r \<Rightarrow>
          (case timed_events L es of
             Inl err \<Rightarrow> Inl err
           | Inr rs \<Rightarrow> Inr (case r of None \<Rightarrow> rs | Some x \<Rightarrow> x # rs)))"

definition categorize_duration :: "rat \<Rightarrow> string" where
  "categorize_duration minutes =
     (if minutes \<le> 15 then ''0-15 minutes''
      else if minutes \<le> 30 then ''16-30 minutes''
      else if minutes \<le> 60 then ''31-60 minutes''
      else if minutes \<le> 120 then ''1-2 hours''
      else ''2+ hours'')"

definition category_order :: "string list" where
  "category_order = [''0-15 minutes'', ''16-30 minutes'', ''31-60 minutes'', ''1-2 hours'',
                     ''2+ hours'']"

text \<open>
  \<open>Series.value_counts()\<close>: one row per distinct value (in order of first appearance) with
  the number of its occurrences, sorted by descending count.
\<close>

definition unique :: "'a list \<Rightarrow> 'a list" where
  "unique xs = rev (remdups (rev xs))"

definition value_counts :: "'a list \<Rightarrow> ('a \<times> nat) list" where
  "value_counts xs =
     sort_key (\<lambda>p. - int (snd p)) (map (\<lambda>v. (v, count_list xs v)) (unique xs))"

text \<open>
  The code of a label in the ordered categorical: its position in \<open>category_order\<close>
  (a label outside the categories sorts last).
\<close>

fun index_of :: "'a list \<Rightarrow> 'a \<Rightarrow> nat" where
  "index_of [] x = 0"
| "index_of (y # ys) x = (if x = y then 0 else Suc (index_of ys x))"

text \<open>
  \<open>category_counts\<close>: the rows (Duration, Count) of \<open>value_counts\<close> over the category
  column, sorted by the categorical order. A category no event falls in has no row.
\<close>

definition category_counts :: "timed_event list \<Rightarrow> (string \<times> nat) list" where
  "category_counts ts =
     sort_key (\<lambda>p. index_of category_order (fst p))
       (value_counts (map (\<lambda>r. categorize_duration (duration_minutes r)) ts))"

text \<open>\<open>Series.mean()\<close>, called by the script on a non-empty column only.\<close>

definition mean :: "rat list \<Rightarrow> rat" where
  "mean xs = sum_list xs / of_nat (length xs)"

record duration_report =
  counts :: "(string \<times> nat) list"
  avg_duration :: rat

text \<open>
  The whole duration section: \<open>Inr None\<close> is the branch that only prints
  "No timed events found for duration analysis."
\<close>

definition duration_analysis :: "stdlib \<Rightarrow> event list \<Rightarrow> py_error + duration_report option"
  where
  "duration_analysis L events =
     (case timed_events L events of
        Inl err \<Rightarrow> Inl err
      | Inr ts \<Rightarrow>
          if ts \<noteq> []
          then Inr (Some \<lparr>counts = category_counts ts,
                          avg_duration = mean (map duration_minutes ts)\<rparr>)
          else Inr None)"

text \<open>The count a chart shows for a label: the row's count, 0 when there is no row.\<close>

definition bucket_count :: "(string \<times> nat) list \<Rightarrow> string \<Rightarrow> nat" where
  "bucket_count rows label = (case map_of rows label of None \<Rightarrow> 0 | Some n \<Rightarrow> n)"

section \<open>A concrete instance of the parsers\<close>

text \<open>
  An instance of the two parsers for the canonical forms the remote service sends:
  \<open>YYYY-MM-DD\<close> for a date and \<open>YYYY-MM-DDTHH:MM:SS\<close>, optionally followed by an offset
  \<open>+HH:MM\<close> or \<open>-HH:MM\<close>, for a timestamp. It rejects every other string.
\<close>

definition digit_val :: "char \<Rightarrow> int option" where
  "digit_val c =
     (let n = (of_char c :: nat) in if 48 \<le> n \<and> n \<le> 57 then Some (int n - 48) else None)"

fun digits :: "string \<Rightarrow> int \<Rightarrow> int option" where
  "digits [] acc = Some acc"
| "digits (c # cs) acc =
     (case digit_val c of None \<Rightarrow> None | Some d \<Rightarrow> digits cs (10 * acc + d))"

definition number :: "string \<Rightarrow> int option" where
  "number s = (if s = [] then None else digits s 0)"

definition parse_ymd :: "string \<Rightarrow> date option" where
  "parse_ymd s =
     (if length s = 10 \<and> s ! 4 = CHR ''-'' \<and> s ! 7 = CHR ''-'' then
        (case number (take 4 s) of None \<Rightarrow> None | Some y \<Rightarrow>
        (case number (take 2 (drop 5 s)) of None \<Rightarrow> None | Some m \<Rightarrow>
        (case number (drop 8 s) of None \<Rightarrow> None | Some d \<Rightarrow>
           (let r = \<lparr>year = y, month = m, day = d\<rparr>
            in if valid_date r then Some r else None))))
      else None)"

definition parse_hms :: "string \<Rightarrow> (int \<times> int \<times> int) option" where
  "parse_hms s =
     (if length s = 8 \<and> s ! 2 = CHR '':'' \<and> s ! 5 = CHR '':'' then
        (case number (take 2 s) of None \<Rightarrow> None | Some h \<Rightarrow>
        (case number (take 2 (drop 3 s)) of None \<Rightarrow> None | Some mi \<Rightarrow>
        (case number (drop 6 s) of None \<Rightarrow> None | Some sec \<Rightarrow>
           (if h < 24 \<and> mi < 60 \<and> sec < 60 then Some (h, mi, sec) else None))))
      else None)"

text \<open>The offset suffix: empty (naive), or a sign, hours, a colon and minutes.\<close>

definition parse_offset :: "string \<Rightarrow> int option option" where
  "parse_offset s =
     (if s = [] then Some None
      else if length s = 6 \<and> (s ! 0 = CHR ''+'' \<or> s ! 0 = CHR ''-'') \<and> s ! 3 = CHR '':'' then
        (case number (take 2 (drop 1 s)) of None \<Rightarrow> None | Some h \<Rightarrow>
        (case number (drop 4 s) of None \<Rightarrow> None | Some mi \<Rightarrow>
           (if h < 24 \<and> mi < 60
            then Some (Some ((if s ! 0 = CHR ''-'' then - 1 else 1) * (h * 3600 + mi * 60) * 1000000))
            else None)))
      else None)"

definition iso_fromisoformat :: "string \<Rightarrow> datetime option" where
  "iso_fromisoformat s =
     (if 19 \<le> length s \<and> s ! 10 = CHR ''T'' then
        (case parse_ymd (take 10 s) of None \<Rightarrow> None | Some d \<Rightarrow>
        (case parse_hms (take 8 (drop 11 s)) of None \<Rightarrow> None | Some (h, mi, sec) \<Rightarrow>
        (case parse_offset (drop 19 s) of None \<Rightarrow> None | Some off \<Rightarrow>
           Some \<lparr>year = year d, month = month d, day = day d, hour = h, minute = mi,
                 second = sec, microsecond = 0, utcoffset = off\<rparr>)))
      else None)"

definition iso_strptime :: "string \<Rightarrow> datetime option" where
  "iso_strptime s =
     (case parse_ymd s of None \<Rightarrow> None
      | Some d \<Rightarrow>
          Some \<lparr>year = year d, month = month d, day = day d, hour = 0, minute = 0,
                second = 0, microsecond = 0, utcoffset = None\<rparr>)"

definition iso_stdlib :: stdlib where
  "iso_stdlib = \<lparr>fromisoformat = iso_fromisoformat, strptime = iso_strptime\<rparr>"

text \<open>The two events of the specification's example, on 15 January 2024 (UTC).\<close>

definition timed :: "string \<Rightarrow> string \<Rightarrow> string \<Rightarrow> event" where
  "timed title s t =
     \<lparr>start = \<lparr>dateTime = Some s, date_str = None\<rparr>,
      end' = \<lparr>dateTime = Some t, date_str = None\<rparr>,
      summary = Some title, description = None, location = None, colorId = None\<rparr>"

definition all_day :: "string \<Rightarrow> string \<Rightarrow> string \<Rightarrow> event" where
  "all_day title s t =
     \<lparr>start = \<lparr>dateTime = None, date_str = Some s\<rparr>,
      end' = \<lparr>dateTime = None, date_str = Some t\<rparr>,
      summary = Some title, description = None, location = None, colorId = None\<rparr>"

definition example_events :: "event list" where
  "example_events =
     [timed ''standup'' ''2024-01-15T09:00:00Z'' ''2024-01-15T09:30:00Z'',
      timed ''review'' ''2024-01-15T10:00:00Z'' ''2024-01-15T11:00:00Z'']"

text \<open>An all-day event, the two example events and a timed event in another time zone.\<close>

definition mixed_events :: "event list" where
  "mixed_events =
     all_day ''holiday'' ''2024-01-15'' ''2024-01-16'' # example_events
     @ [timed ''workshop'' ''2024-01-16T13:00:00+01:00'' ''2024-01-16T16:30:00+01:00'']"

text \<open>The datetime on date \<open>d\<close> at \<open>h:mi:00\<close> with offset \<open>off\<close>.\<close>

definition at_time :: "date \<Rightarrow> int \<Rightarrow> int \<Rightarrow> int option \<Rightarrow> datetime" where
  "at_time d h mi off =
     \<lparr>year = year d, month = month d, day = day d, hour = h, minute = mi, second = 0,
      microsecond = 0, utcoffset = off\<rparr>"

section \<open>Weekday analysis (analytics view)\<close>

text \<open>
  \<open>day_counts\<close> is a dict from the seven day names to a count, kept in insertion order.
  \<open>d[k] += 1\<close> raises KeyError for a key that is not in the dict.
\<close>

definition initial_day_counts :: "(string \<times> nat) list" where
  "initial_day_counts =
     [(''Monday'', 0), (''Tuesday'', 0), (''Wednesday'', 0), (''Thursday'', 0), (''Friday'', 0),
      (''Saturday'', 0), (''Sunday'', 0)]"

fun increment :: "string \<Rightarrow> (string \<times> nat) list \<Rightarrow> py_error + (string \<times> nat) list" where
  "increment k [] = Inl KeyError"
| "increment k ((k', n) # kvs) =
     (if k = k' then Inr ((k', n + 1) # kvs)
      else (case increment k kvs of Inl err \<Rightarrow> Inl err | Inr kvs' \<Rightarrow> Inr ((k', n) # kvs')))"

fun day_counts_loop ::
  "stdlib \<Rightarrow> (string \<times> nat) list \<Rightarrow> event list \<Rightarrow> py_error + (string \<times> nat) list" where
  "day_counts_loop L dc [] = Inr dc"
| "day_counts_loop L dc (e # es) =
     (case parse_start L e of
        Inl err \<Rightarrow> Inl err
      | Inr event_dt \<Rightarrow>
          (case increment (strftime_A event_dt) dc of
             Inl err \<Rightarrow> Inl err
           | Inr dc' \<Rightarrow> day_counts_loop L dc' es))"

definition day_counts :: "stdlib \<Rightarrow> event list \<Rightarrow> py_error + (string \<times> nat) list" where
  "day_counts L events = day_counts_loop L initial_day_counts events"

text \<open>The day name the weekday loop computes for an event, when its start parses.\<close>

definition day_name_of :: "stdlib \<Rightarrow> event \<Rightarrow> string option" where
  "day_name_of L e =
     (case parse_start L e of Inl err \<Rightarrow> None | Inr event_dt \<Rightarrow> Some (strftime_A event_dt))"

section \<open>Grouping by date (list view)\<close>

text \<open>The record the list view keeps for an event, with the defaults of \<open>event.get\<close>.\<close>

record display_record =
  r_time :: string
  r_summary :: string
  r_description :: string
  r_location :: string
  r_color :: string

text \<open>\<open>strftime("%H:%M")\<close>: hour and minute, each on two digits.\<close>

definition two_digits :: "int \<Rightarrow> string" where
  "two_digits n = [''0123456789'' ! nat (n div 10), ''0123456789'' ! nat (n mod 10)]"

definition strftime_HM :: "datetime \<Rightarrow> string" where
  "strftime_HM dt = two_digits (hour dt) @ '':'' @ two_digits (minute dt)"

definition get_or :: "string option \<Rightarrow> string \<Rightarrow> string" where
  "get_or v dflt = (case v of None \<Rightarrow> dflt | Some x \<Rightarrow> x)"

text \<open>
  The body of the grouping loop up to the dict update: the date the event is filed under
  and its display record.
\<close>

definition event_entry :: "stdlib \<Rightarrow> event \<Rightarrow> py_error + (date \<times> display_record)" where
  "event_entry L e =
     (case start_string e of
        None \<Rightarrow> Inl TypeError
      | Some s \<Rightarrow>
          (case (if CHR ''T'' \<in> set s
                 then (case fromisoformat L (replace_Z s) of
                         None \<Rightarrow> Inl ValueError
                       | Some start_dt \<Rightarrow> Inr (date_of start_dt, strftime_HM start_dt))
                 else (case strptime L s of
                         None \<Rightarrow> Inl ValueError
                       | Some dt \<Rightarrow> Inr (date_of dt, ''All day'')))
           of Inl err \<Rightarrow> Inl err
            | Inr (event_date, formatted_time) \<Rightarrow>
                Inr (event_date,
                     \<lparr>r_time = formatted_time,
                      r_summary = get_or (summary e) ''Untitled Event'',
                      r_description = get_or (description e) [],
                      r_location = get_or (location e) [],
                      r_color = get_or (colorId e) ''0''\<rparr>)))"

text \<open>
  \<open>events_by_date\<close> is a dict from date to list, in insertion order: a new date gets an
  empty list first, then the record is appended to the list of its date.
\<close>

fun append_to ::
  "date \<Rightarrow> display_record \<Rightarrow> (date \<times> display_record list) list
   \<Rightarrow> (date \<times> display_record list) list" where
  "append_to d r [] = [(d, [r])]"
| "append_to d r ((k, rs) # kvs) =
     (if k = d then (k, rs @ [r]) # kvs else (k, rs) # append_to d r kvs)"

fun events_by_date_loop ::
  "stdlib \<Rightarrow> (date \<times> display_record list) list \<Rightarrow> event list
   \<Rightarrow> py_error + (date \<times> display_record list) list" where
  "events_by_date_loop L acc [] = Inr acc"
| "events_by_date_loop L acc (e # es) =
     (case event_entry L e of
        Inl err \<Rightarrow> Inl err
      | Inr (event_date, r) \<Rightarrow> events_by_date_loop L (append_to event_date r acc) es)"

definition events_by_date ::
  "stdlib \<Rightarrow> event list \<Rightarrow> py_error + (date \<times> display_record list) list" where
  "events_by_date L events = events_by_date_loop L [] events"

text \<open>
  The calendar date of an event: the date of its parsed start, in the start's own offset.
\<close>

definition event_date :: "stdlib \<Rightarrow> event \<Rightarrow> date option" where
  "event_date L e = (case parse_start L e of Inl err \<Rightarrow> None | Inr dt \<Rightarrow> Some (date_of dt))"

text \<open>
  The instant of a parsed start in microseconds, with the offset of an aware datetime
  removed: the start time the remote service orders the events by.
\<close>

definition start_instant :: "stdlib \<Rightarrow> event \<Rightarrow> int" where
  "start_instant L e =
     (case parse_start L e of
        Inl err \<Rightarrow> 0
      | Inr dt \<Rightarrow>
          ((toordinal dt * 86400 + hour dt * 3600 + minute dt * 60 + second dt) * 1000000
           + microsecond dt)
          - (case utcoffset dt of None \<Rightarrow> 0 | Some off \<Rightarrow> off))"

text \<open>The two dates of \<open>mixed_events\<close> and the records the list view files under them.\<close>

definition jan15 :: date where
  "jan15 = \<lparr>year = 2024, month = 1, day = 15\<rparr>"

definition jan16 :: date where
  "jan16 = \<lparr>year = 2024, month = 1, day = 16\<rparr>"

definition jan15_records :: "display_record list" where
  "jan15_records =
     [\<lparr>r_time = ''All day'', r_summary = ''holiday'', r_description = [], r_location = [],
       r_color = ''0''\<rparr>,
      \<lparr>r_time = ''09:00'', r_summary = ''standup'', r_description = [], r_location = [],
       r_color = ''0''\<rparr>,
      \<lparr>r_time = ''10:00'', r_summary = ''review'', r_description = [], r_location = [],
       r_color = ''0''\<rparr>]"

definition jan16_records :: "display_record list" where
  "jan16_records =
     [\<lparr>r_time = ''13:00'', r_summary = ''workshop'', r_description = [], r_location = [],
       r_color = ''0''\<rparr>]"

definition workshop :: event where
  "workshop = timed ''workshop'' ''2024-01-16T13:00:00+01:00'' ''2024-01-16T16:30:00+01:00''"

text \<open>The order of the remote service: by the instant of the start.\<close>

definition starts_before :: "stdlib \<Rightarrow> event \<Rightarrow> event \<Rightarrow> bool" where
  "starts_before L a b \<longleftrightarrow> start_instant L a \<le> start_instant L b"

text \<open>The list of a date in the dict, empty for a date that is not a key.\<close>

definition bucket :: "(date \<times> display_record list) list \<Rightarrow> date \<Rightarrow> display_record list" where
  "bucket m d = (case map_of m d of None \<Rightarrow> [] | Some rs \<Rightarrow> rs)"

section \<open>Heatmap counts (analytics view)\<close>

text \<open>
  \<open>pd.date_range(start, end)\<close>: one row per day from \<open>start\<close> to \<open>end\<close>, both included,
  and none when \<open>end\<close> is before \<open>start\<close>. The days are enumerated by stepping to the next
  calendar day. (Dates are taken inside the range pandas can represent.)
\<close>

definition next_day :: "date \<Rightarrow> date" where
  "next_day d =
     (if day d < days_in_month (year d) (month d) then d\<lparr>day := day d + 1\<rparr>
      else if month d < 12 then \<lparr>year = year d, month = month d + 1, day = 1\<rparr>
      else \<lparr>year = year d + 1, month = 1, day = 1\<rparr>)"

fun days_from :: "date \<Rightarrow> nat \<Rightarrow> date list" where
  "days_from d 0 = []"
| "days_from d (Suc n) = d # days_from (next_day d) n"

definition date_range :: "date \<Rightarrow> date \<Rightarrow> date list" where
  "date_range start_date end_date =
     days_from start_date (nat (toordinal end_date - toordinal start_date + 1))"

text \<open>The order of \<open>datetime.date\<close>: by year, then month, then day.\<close>

definition date_le :: "date \<Rightarrow> date \<Rightarrow> bool" where
  "date_le a b \<longleftrightarrow>
     year a < year b \<or> (year a = year b \<and> (month a < month b \<or>
       (month a = month b \<and> day a \<le> day b)))"

text \<open>
  The counting loop of \<open>create_calendar_heatmap\<close> over the rows (date, count) of
  \<open>calendar_df\<close>: the rows whose date is the event's date get one more; when there is no
  such row nothing changes.
\<close>

definition increment_rows :: "date \<Rightarrow> (date \<times> nat) list \<Rightarrow> (date \<times> nat) list" where
  "increment_rows key rows =
     map (\<lambda>(d, c). if d = key then (d, c + 1) else (d, c)) rows"

fun heatmap_loop ::
  "stdlib \<Rightarrow> (date \<times> nat) list \<Rightarrow> event list \<Rightarrow> py_error + (date \<times> nat) list" where
  "heatmap_loop L rows [] = Inr rows"
| "heatmap_loop L rows (e # es) =
     (case parse_start L e of
        Inl err \<Rightarrow> Inl err
      | Inr dt \<Rightarrow> heatmap_loop L (increment_rows (date_of dt) rows) es)"

definition heatmap_counts ::
  "stdlib \<Rightarrow> event list \<Rightarrow> date \<Rightarrow> date \<Rightarrow> py_error + (date \<times> nat) list" where
  "heatmap_counts L events_data start_date end_date =
     heatmap_loop L (map (\<lambda>d. (d, 0)) (date_range start_date end_date)) events_data"

text \<open>
  A date with a month from 1 to 12 and a day of that month, in any year: what stepping to
  the next day preserves.
\<close>

definition proper_date :: "date \<Rightarrow> bool" where
  "proper_date d \<longleftrightarrow>
     1 \<le> month d \<and> month d \<le> 12 \<and> 1 \<le> day d \<and> day d \<le> days_in_month (year d) (month d)"

section \<open>The three views\<close>

subsection \<open>The remote service and the page\<close>

text \<open>
  The payload of \<open>events().insert\<close>: start and end are a \<open>date\<close> or a \<open>dateTime\<close> string
  with a time zone; the reminders are the minutes of the popup overrides.
\<close>

record payload_time =
  pt_date :: "string option"
  pt_dateTime :: "string option"
  timeZone :: string

record new_event =
  new_summary :: string
  new_location :: string
  new_description :: string
  new_start :: payload_time
  new_end :: payload_time
  new_colorId :: string
  new_reminders :: "int list"

text \<open>A remote call: \<open>events().list\<close> with timeMin, timeMax and maxResults, or \<open>events().insert\<close>.\<close>

datatype request = Events_list string string nat | Events_insert new_event

text \<open>
  The connected client is a parameter: what \<open>execute()\<close> returns for a call, the items of
  the listing or the \<open>htmlLink\<close> of the created event, or the exception it raises.
\<close>

record service =
  events_list :: "string \<Rightarrow> string \<Rightarrow> nat \<Rightarrow> py_error + event list"
  events_insert :: "new_event \<Rightarrow> py_error + string option"

text \<open>What a view puts on the page; \<open>Error_exception\<close> is \<open>st.error(f"...: {e}")\<close>.\<close>

datatype element =
    Error string
  | Error_exception string py_error
  | Info string
  | Success string
  | Event_details new_event "string option"
  | Subheader date
  | Card display_record
  | Metric_total nat
  | Heatmap "(date \<times> nat) list"
  | Day_chart "(string \<times> nat) list"
  | Duration_chart "(string \<times> nat) list"
  | Metric_average rat

text \<open>
  One run of a view: the exception that left the script uncaught, if any, the remote
  calls issued, in order, and the elements shown until then.
\<close>

record run =
  raised :: "py_error option"
  calls :: "request list"
  shown :: "element list"

subsection \<open>Formatting dates and times\<close>

fun zero_pad :: "nat \<Rightarrow> int \<Rightarrow> string" where
  "zero_pad 0 x = []"
| "zero_pad (Suc n) x = zero_pad n (x div 10) @ [''0123456789'' ! nat (x mod 10)]"

text \<open>\<open>date.isoformat()\<close> and \<open>strftime('%Y-%m-%d')\<close> (for a year of four digits).\<close>

definition isoformat_date :: "'a date_scheme \<Rightarrow> string" where
  "isoformat_date d =
     zero_pad 4 (year d) @ ''-'' @ two_digits (month d) @ ''-'' @ two_digits (day d)"

text \<open>\<open>datetime.isoformat()\<close> of a naive datetime, the only kind the views format.\<close>

definition isoformat :: "datetime \<Rightarrow> string" where
  "isoformat dt =
     isoformat_date dt @ ''T'' @ two_digits (hour dt) @ '':'' @ two_digits (minute dt)
     @ '':'' @ two_digits (second dt)
     @ (if microsecond dt = 0 then [] else ''.'' @ zero_pad 6 (microsecond dt))"

text \<open>\<open>datetime.combine(d, t)\<close> with \<open>t\<close> given by hour, minute, second and microsecond.\<close>

definition combine :: "date \<Rightarrow> int \<times> int \<times> int \<times> int \<Rightarrow> datetime" where
  "combine d t =
     (case t of (h, mi, sec, us) \<Rightarrow>
        \<lparr>year = year d, month = month d, day = day d, hour = h, minute = mi, second = sec,
         microsecond = us, utcoffset = None\<rparr>)"

definition time_min :: "int \<times> int \<times> int \<times> int" where
  "time_min = (0, 0, 0, 0)"

definition time_max :: "int \<times> int \<times> int \<times> int" where
  "time_max = (23, 59, 59, 999999)"

text \<open>
  \<open>dt + timedelta(minutes=n)\<close> for a naive datetime and \<open>n \<ge> 0\<close>, which the form
  guarantees: the minutes carry into hours and whole days, the days into the date.
\<close>

definition add_minutes :: "datetime \<Rightarrow> int \<Rightarrow> datetime" where
  "add_minutes dt n =
     (let total = hour dt * 60 + minute dt + n;
          d = (next_day ^^ nat (total div 1440)) (date_of dt)
      in \<lparr>year = year d, month = month d, day = day d, hour = (total mod 1440) div 60,
          minute = total mod 60, second = second dt, microsecond = microsecond dt,
          utcoffset = utcoffset dt\<rparr>)"

subsection \<open>Upcoming events\<close>

text \<open>\<open>sorted(events_by_date.keys())\<close>, by insertion in date order.\<close>

fun insert_date :: "date \<Rightarrow> date list \<Rightarrow> date list" where
  "insert_date d [] = [d]"
| "insert_date d (x # xs) = (if date_le d x then d # x # xs else x # insert_date d xs)"

definition sorted_dates :: "date list \<Rightarrow> date list" where
  "sorted_dates ds = foldr insert_date ds []"

definition render_events :: "(date \<times> display_record list) list \<Rightarrow> element list" where
  "render_events m =
     concat (map (\<lambda>d. Subheader d # map Card (bucket m d)) (sorted_dates (map fst m)))"

text \<open>
  The view: the range and the slider value go to the remote listing as they are; the
  listing is not inside any \<open>try\<close>.
\<close>

definition upcoming_view :: "stdlib \<Rightarrow> service \<Rightarrow> date \<Rightarrow> date \<Rightarrow> nat \<Rightarrow> run" where
  "upcoming_view L svc start_date end_date max_events =
     (let start_datetime = isoformat (combine start_date time_min) @ ''Z'';
          end_datetime = isoformat (combine end_date time_max) @ ''Z'';
          call = Events_list start_datetime end_datetime max_events
      in case events_list svc start_datetime end_datetime max_events of
           Inl err \<Rightarrow> \<lparr>raised = Some err, calls = [call], shown = []\<rparr>
         | Inr events \<Rightarrow>
             if events = []
             then \<lparr>raised = None, calls = [call],
                   shown = [Info ''No events found for the selected period.'']\<rparr>
             else (case events_by_date L events of
                     Inl err \<Rightarrow> \<lparr>raised = Some err, calls = [call], shown = []\<rparr>
                   | Inr m \<Rightarrow> \<lparr>raised = None, calls = [call], shown = render_events m\<rparr>))"

subsection \<open>Create new event\<close>

text \<open>
  The submitted form. \<open>total_minutes\<close> is the duration the form computes from its duration
  widgets; \<open>event_time\<close> is the hour and minute of the time input.
\<close>

record create_form =
  event_title :: string
  form_event_date :: date
  form_all_day :: bool
  event_time :: "int \<times> int"
  total_minutes :: int
  event_description :: string
  event_location :: string
  event_color :: string
  notifications :: "string list"
  submit_button :: bool

definition colors :: "(string \<times> string) list" where
  "colors =
     [(''Default'', ''0''), (''Lavender'', ''1''), (''Sage'', ''2''), (''Grape'', ''3''),
      (''Flamingo'', ''4''), (''Banana'', ''5''), (''Tangerine'', ''6''), (''Peacock'', ''7''),
      (''Graphite'', ''8''), (''Blueberry'', ''9''), (''Basil'', ''10''), (''Tomato'', ''11'')]"

definition reminder_overrides :: "string list \<Rightarrow> int list" where
  "reminder_overrides ns =
     concat (map (\<lambda>notification.
       if notification = ''10 minutes before'' then [10]
       else if notification = ''30 minutes before'' then [30]
       else if notification = ''1 hour before'' then [60]
       else if notification = ''1 day before'' then [1440]
       else []) ns)"

definition start_and_end :: "create_form \<Rightarrow> payload_time \<times> payload_time" where
  "start_and_end f =
     (if form_all_day f then
        (\<lparr>pt_date = Some (isoformat_date (form_event_date f)), pt_dateTime = None,
          timeZone = ''UTC''\<rparr>,
         \<lparr>pt_date = Some (isoformat_date (next_day (form_event_date f))), pt_dateTime = None,
          timeZone = ''UTC''\<rparr>)
      else
        (let start_datetime =
               combine (form_event_date f) (fst (event_time f), snd (event_time f), 0, 0);
             end_datetime = add_minutes start_datetime (total_minutes f)
         in (\<lparr>pt_date = None, pt_dateTime = Some (isoformat start_datetime),
              timeZone = ''UTC''\<rparr>,
             \<lparr>pt_date = None, pt_dateTime = Some (isoformat end_datetime),
              timeZone = ''UTC''\<rparr>)))"

text \<open>
  The view: nothing happens before the form is submitted; an empty title is reported
  and ends the run; otherwise the event is built and inserted, inside a \<open>try\<close> whose
  handler shows the exception.
\<close>

definition create_view :: "service \<Rightarrow> create_form \<Rightarrow> run" where
  "create_view svc f =
     (if \<not> submit_button f then \<lparr>raised = None, calls = [], shown = []\<rparr>
      else if event_title f = []
      then \<lparr>raised = None, calls = [], shown = [Error ''Please enter an event title'']\<rparr>
      else
        (case map_of colors (event_color f) of
           None \<Rightarrow> \<lparr>raised = Some KeyError, calls = [], shown = []\<rparr>
         | Some color_id \<Rightarrow>
             (let event = \<lparr>new_summary = event_title f,
                           new_location = event_location f,
                           new_description = event_description f,
                           new_start = fst (start_and_end f),
                           new_end = snd (start_and_end f),
                           new_colorId = color_id,
                           new_reminders = reminder_overrides (notifications f)\<rparr>
              in case events_insert svc event of
                   Inl e \<Rightarrow>
                     \<lparr>raised = None, calls = [Events_insert event],
                      shown = [Error_exception ''Failed to create event: '' e]\<rparr>
                 | Inr html_link \<Rightarrow>
                     \<lparr>raised = None, calls = [Events_insert event],
                      shown = [Success ''Event created successfully!'',
                               Event_details event html_link]\<rparr>)))"

subsection \<open>Activity analytics\<close>

text \<open>
  The view: the listing is issued only when the start date is not after the end date,
  again outside any \<open>try\<close>; the sections follow one another, and an exception in one of
  them leaves the script with what was shown before.
\<close>

definition analytics_view :: "stdlib \<Rightarrow> service \<Rightarrow> date \<Rightarrow> date \<Rightarrow> run" where
  "analytics_view L svc analytics_start analytics_end =
     (if date_le analytics_start analytics_end then
        (let start_datetime = isoformat (combine analytics_start time_min) @ ''Z'';
             end_datetime = isoformat (combine analytics_end time_max) @ ''Z'';
             call = Events_list start_datetime end_datetime 1000
         in case events_list svc start_datetime end_datetime 1000 of
              Inl err \<Rightarrow> \<lparr>raised = Some err, calls = [call], shown = []\<rparr>
            | Inr events \<Rightarrow>
                if events = []
                then \<lparr>raised = None, calls = [call],
                      shown = [Info ''No events found for the selected period.'']\<rparr>
                else
                  (case heatmap_counts L events analytics_start analytics_end of
                     Inl err \<Rightarrow>
                       \<lparr>raised = Some err, calls = [call],
                        shown = [Metric_total (length events)]\<rparr>
                   | Inr rows \<Rightarrow>
                  (case day_counts L events of
                     Inl err \<Rightarrow>
                       \<lparr>raised = Some err, calls = [call],
                        shown = [Metric_total (length events), Heatmap rows]\<rparr>
                   | Inr dc \<Rightarrow>
                  (case duration_analysis L events of
                     Inl err \<Rightarrow>
                       \<lparr>raised = Some err, calls = [call],
                        shown = [Metric_total (length events), Heatmap rows, Day_chart dc]\<rparr>
                   | Inr None \<Rightarrow>
                       \<lparr>raised = None, calls = [call],
                        shown = [Metric_total (length events), Heatmap rows, Day_chart dc,
                                 Info ''No timed events found for duration analysis.'']\<rparr>
                   | Inr (Some r) \<Rightarrow>
                       \<lparr>raised = None, calls = [call],
                        shown = [Metric_total (length events), Heatmap rows, Day_chart dc,
                                 Duration_chart (counts r),
                                 Metric_average (avg_duration r)]\<rparr>))))
      else \<lparr>raised = None, calls = [],
            shown = [Error ''End date must be after start date'']\<rparr>)"

subsection \<open>Sample services and inputs\<close>

text \<open>
  A service whose every call fails, one that lists the events of \<open>mixed_events\<close>, and a
  form for a one-hour meeting.
\<close>

definition failing_service :: service where
  "failing_service =
     \<lparr>events_list = (\<lambda>time_min time_max max_results. Inl (HttpError ''503'')),
      events_insert = (\<lambda>body. Inl (HttpError ''503''))\<rparr>"

definition sample_service :: service where
  "sample_service =
     \<lparr>events_list = (\<lambda>time_min time_max max_results. Inr (take max_results mixed_events)),
      events_insert = (\<lambda>body. Inr (Some ''https://calendar.example/event''))\<rparr>"

definition sample_form :: create_form where
  "sample_form =
     \<lparr>event_title = ''Planning'', form_event_date = jan15, form_all_day = False,
      event_time = (9, 0), total_minutes = 60, event_description = ''Quarterly planning'',
      event_location = ''Room A'', event_color = ''Sage'',
      notifications = [''10 minutes before''], submit_button = True\<rparr>"

section \<open>Verified properties\<close>

subsection \<open>The loop that collects the timed events\<close>

lemma timed_event_of_skip: "\<not> is_timed e \<Longrightarrow> timed_event_of L e = Inr None"
  by (auto simp: is_timed_def has_value_def timed_event_of_def split: option.splits)

lemma timed_event_of_timed:
  "is_timed e \<Longrightarrow> timed_event_of L e = Inr r \<Longrightarrow>
   \<exists>x s t a b td. r = Some x \<and> dateTime (start e) = Some s \<and> dateTime (end' e) = Some t \<and>
      fromisoformat L (replace_Z s) = Some a \<and> fromisoformat L (replace_Z t) = Some b \<and>
      datetime_sub b a = Inr td \<and> duration_minutes x = of_int td / 1000000 / 60"
  by (auto simp: is_timed_def has_value_def timed_event_of_def total_seconds_def
      split: option.splits sum.splits if_splits)

lemma datetime_sub_Inl:
  "datetime_sub b a = Inl x \<Longrightarrow> (utcoffset a = None) \<noteq> (utcoffset b = None)"
  by (auto simp: datetime_sub_def Let_def split: option.splits)

lemma timed_event_of_well_timed:
  "well_timed L e \<Longrightarrow> \<exists>r. timed_event_of L e = Inr r"
  by (auto simp: timed_event_of_def well_timed_def
      split: option.splits sum.splits if_splits dest: datetime_sub_Inl)

lemma timed_events_total:
  "\<forall>e\<in>set events. is_timed e \<longrightarrow> well_timed L e \<Longrightarrow> \<exists>ts. timed_events L events = Inr ts"
proof (induction events)
  case Nil
  show ?case by simp
next
  case (Cons e es)
  then obtain rs where rs: "timed_events L es = Inr rs" by auto
  have "\<exists>r. timed_event_of L e = Inr r"
  proof (cases "is_timed e")
    case True
    with Cons.prems show ?thesis by (simp add: timed_event_of_well_timed)
  next
    case False
    then show ?thesis by (simp add: timed_event_of_skip)
  qed
  with rs show ?case by auto
qed

lemma timed_events_filter:
  "timed_events L events = Inr ts \<Longrightarrow>
   list_all2 (\<lambda>r e. \<exists>s t a b td. dateTime (start e) = Some s \<and> dateTime (end' e) = Some t \<and>
      fromisoformat L (replace_Z s) = Some a \<and> fromisoformat L (replace_Z t) = Some b \<and>
      datetime_sub b a = Inr td \<and> duration_minutes r = of_int td / 1000000 / 60)
     ts (filter is_timed events)"
proof (induction events arbitrary: ts)
  case Nil
  then show ?case by simp
next
  case (Cons e es)
  from Cons.prems obtain r rs where
    r: "timed_event_of L e = Inr r" and rs: "timed_events L es = Inr rs"
    and ts: "ts = (case r of None \<Rightarrow> rs | Some x \<Rightarrow> x # rs)"
    by (auto split: sum.splits)
  note IH = Cons.IH [OF rs]
  show ?case
  proof (cases "is_timed e")
    case True
    from timed_event_of_timed [OF True r] obtain x where "r = Some x" by blast
    with timed_event_of_timed [OF True r] ts IH True show ?thesis by auto
  next
    case False
    with r have "r = None" by (simp add: timed_event_of_skip)
    with ts IH False show ?thesis by simp
  qed
qed

lemma categorize_duration_ranges:
  "categorize_duration m \<in> set category_order"
  "categorize_duration m = ''0-15 minutes'' \<longleftrightarrow> m \<le> 15"
  "categorize_duration m = ''16-30 minutes'' \<longleftrightarrow> 15 < m \<and> m \<le> 30"
  "categorize_duration m = ''31-60 minutes'' \<longleftrightarrow> 30 < m \<and> m \<le> 60"
  "categorize_duration m = ''1-2 hours'' \<longleftrightarrow> 60 < m \<and> m \<le> 120"
  "categorize_duration m = ''2+ hours'' \<longleftrightarrow> 120 < m"
  "distinct category_order"
  by (auto simp: categorize_duration_def category_order_def)

lemma mixed_events_timed:
  "timed_events iso_stdlib mixed_events =
     Inr [\<lparr>te_summary = ''standup'', duration_minutes = 30\<rparr>,
          \<lparr>te_summary = ''review'', duration_minutes = 60\<rparr>,
          \<lparr>te_summary = ''workshop'', duration_minutes = 210\<rparr>]"
  by code_simp

lemma mixed_events_well_timed:
  "list_all (\<lambda>e. is_timed e \<longrightarrow> well_timed iso_stdlib e) mixed_events"
  by code_simp

lemma mixed_events_filter:
  "filter is_timed mixed_events = example_events
     @ [timed ''workshop'' ''2024-01-16T13:00:00+01:00'' ''2024-01-16T16:30:00+01:00'']"
  by code_simp

text \<open>
  C1. Only the events with a start and an end \<open>dateTime\<close> take part in the duration
  analysis: the records built are, in order, those of the timed events, each with the
  duration end minus start in minutes, and the analysis does return them when every
  timed event is well formed. Every duration falls in exactly one of the five labels,
  whose ranges are at most 15, (15, 30], (30, 60], (60, 120] and more than 120 minutes.
  An event lacking either timestamp yields no record.
\<close>

theorem duration_bucketing:
  "(list_all (\<lambda>e. is_timed e \<longrightarrow> well_timed L e) events \<longrightarrow>
      (\<exists>ts. timed_events L events = Inr ts))
   \<and> (\<forall>ts. timed_events L events = Inr ts \<longrightarrow>
        list_all2 (\<lambda>r e. \<exists>s t a b td.
            dateTime (start e) = Some s \<and> dateTime (end' e) = Some t \<and>
            fromisoformat L (replace_Z s) = Some a \<and> fromisoformat L (replace_Z t) = Some b \<and>
            datetime_sub b a = Inr td \<and> duration_minutes r = of_int td / 1000000 / 60)
          ts (filter is_timed events))
   \<and> categorize_duration m \<in> set category_order \<and> distinct category_order
   \<and> (categorize_duration m = ''0-15 minutes'' \<longleftrightarrow> m \<le> 15)
   \<and> (categorize_duration m = ''16-30 minutes'' \<longleftrightarrow> 15 < m \<and> m \<le> 30)
   \<and> (categorize_duration m = ''31-60 minutes'' \<longleftrightarrow> 30 < m \<and> m \<le> 60)
   \<and> (categorize_duration m = ''1-2 hours'' \<longleftrightarrow> 60 < m \<and> m \<le> 120)
   \<and> (categorize_duration m = ''2+ hours'' \<longleftrightarrow> 120 < m)"
proof -
  have total: "list_all (\<lambda>e. is_timed e \<longrightarrow> well_timed L e) events \<longrightarrow>
      (\<exists>ts. timed_events L events = Inr ts)"
    using timed_events_total [of events L] by (simp add: list_all_iff)
  show ?thesis
    using total timed_events_filter [of L events] categorize_duration_ranges
    by blast
qed

theorem duration_bucketing_witness:
  "list_all (\<lambda>e. is_timed e \<longrightarrow> well_timed iso_stdlib e) mixed_events
   \<and> length (filter is_timed mixed_events) = 3 \<and> length mixed_events = 4
   \<and> (\<exists>ts. timed_events iso_stdlib mixed_events = Inr ts \<and>
        list_all2 (\<lambda>r e. \<exists>s t a b td.
            dateTime (start e) = Some s \<and> dateTime (end' e) = Some t \<and>
            fromisoformat iso_stdlib (replace_Z s) = Some a \<and>
            fromisoformat iso_stdlib (replace_Z t) = Some b \<and>
            datetime_sub b a = Inr td \<and> duration_minutes r = of_int td / 1000000 / 60)
          ts (filter is_timed mixed_events)
        \<and> map duration_minutes ts = [30, 60, 210])
   \<and> categorize_duration 60 = ''31-60 minutes''"
proof -
  have len: "length (filter is_timed mixed_events) = 3" "length mixed_events = 4"
    by (simp_all add: mixed_events_filter example_events_def)
       (simp add: mixed_events_def example_events_def)
  have cat: "categorize_duration 60 = ''31-60 minutes''"
    using duration_bucketing [of iso_stdlib mixed_events 60] by simp
  show ?thesis
    using duration_bucketing [of iso_stdlib mixed_events 60] mixed_events_well_timed
      mixed_events_timed len cat
    by simp
qed

subsection \<open>Counting by category\<close>

lemma sum_list_insort_key:
  "sum_list (map f (insort_key k x xs)) = f x + sum_list (map f xs)"
  for f :: "'a \<Rightarrow> nat"
  by (induction xs) auto

lemma sum_list_sort_key:
  "sum_list (map f (sort_key k xs)) = sum_list (map f xs)"
  for f :: "'a \<Rightarrow> nat"
  by (induction xs) (auto simp: sum_list_insort_key)

lemma unique_props: "distinct (unique xs)" "set (unique xs) = set xs"
  by (simp_all add: unique_def)

lemma sum_value_counts: "sum_list (map snd (value_counts xs)) = length xs"
proof -
  have "sum_list (map snd (value_counts xs)) = sum_list (map (count_list xs) (unique xs))"
    by (simp add: value_counts_def sum_list_sort_key comp_def)
  also have "\<dots> = sum (count_list xs) (set xs)"
    using sum_list_distinct_conv_sum_set [of "unique xs" "count_list xs"]
    by (simp add: unique_props)
  also have "\<dots> = length xs"
    by (rule sum_count_set) simp_all
  finally show ?thesis .
qed

lemma sum_category_counts: "sum_list (map snd (category_counts ts)) = length ts"
  by (simp add: category_counts_def sum_list_sort_key sum_value_counts)

lemma map_of_insort_key:
  "distinct (map fst (x # xs)) \<Longrightarrow> map_of (insort_key k x xs) = map_of (x # xs)"
proof (induction xs)
  case Nil
  then show ?case by simp
next
  case (Cons y ys)
  then show ?case by (auto simp: fun_eq_iff)
qed

lemma fst_set_insort_key: "fst ` set (insort_key k x xs) = insert (fst x) (fst ` set xs)"
  by (simp add: set_insort_key)

lemma distinct_fst_insort_key:
  "distinct (map fst (insort_key k x xs)) = distinct (map fst (x # xs))"
  by (induction xs) (auto simp: set_insort_key)

lemma map_of_sort_key:
  "distinct (map fst xs) \<Longrightarrow> map_of (sort_key k xs) = map_of xs"
proof (induction xs)
  case Nil
  then show ?case by simp
next
  case (Cons x xs)
  have d: "distinct (map fst (x # sort_key k xs))"
    using Cons.prems distinct_map by (auto simp: distinct_map inj_on_def)
  show ?case
    using Cons map_of_insort_key [OF d, of k] by (simp add: fun_eq_iff)
qed

lemma map_of_value_counts:
  "map_of (value_counts xs) c = (if c \<in> set xs then Some (count_list xs c) else None)"
proof -
  have d: "distinct (map fst (map (\<lambda>v. (v, count_list xs v)) (unique xs)))"
    by (simp add: comp_def unique_props)
  have "map_of (value_counts xs) = map_of (map (\<lambda>v. (v, count_list xs v)) (unique xs))"
    unfolding value_counts_def by (rule map_of_sort_key [OF d])
  then show ?thesis
    by (simp add: map_of_map_restrict restrict_map_def unique_props)
qed

lemma distinct_fst_sort_key:
  "distinct (map fst (sort_key k xs)) = distinct (map fst xs)"
  by (induction xs) (auto simp: distinct_fst_insort_key set_insort_key)

lemma distinct_fst_value_counts: "distinct (map fst (value_counts xs))"
  by (simp add: value_counts_def distinct_fst_sort_key comp_def unique_props)

lemma bucket_count_category_counts:
  "bucket_count (category_counts ts) c =
   count_list (map (\<lambda>r. categorize_duration (duration_minutes r)) ts) c"
proof -
  have "map_of (category_counts ts) =
        map_of (value_counts (map (\<lambda>r. categorize_duration (duration_minutes r)) ts))"
    unfolding category_counts_def
    by (rule map_of_sort_key [OF distinct_fst_value_counts])
  then show ?thesis
    by (simp add: bucket_count_def map_of_value_counts count_list_0_iff del: set_map)
qed

lemma timed_events_length:
  "timed_events L events = Inr ts \<Longrightarrow> length ts = length (filter is_timed events)"
  using timed_events_filter [of L events ts] by (simp add: list_all2_lengthD)

lemma duration_analysis_cases:
  "duration_analysis L events = Inr res \<Longrightarrow>
   \<exists>ts. timed_events L events = Inr ts \<and>
     (ts = [] \<longrightarrow> res = None) \<and>
     (ts \<noteq> [] \<longrightarrow> res = Some \<lparr>counts = category_counts ts,
                              avg_duration = mean (map duration_minutes ts)\<rparr>)"
  by (auto simp: duration_analysis_def split: sum.splits if_splits)

text \<open>
  C4. Whenever the duration chart is built, the sum of its counts is the number of timed
  events (not the number of events), and the count of every label is the number of timed
  events whose duration falls under it; when the chart is not built there is no timed
  event. An all-day event adds to no count.
\<close>

theorem duration_counts_sum:
  "(\<forall>r. duration_analysis L events = Inr (Some r) \<longrightarrow>
       sum_list (map snd (counts r)) = length (filter is_timed events)
       \<and> (\<exists>ts. timed_events L events = Inr ts \<and>
             (\<forall>c. bucket_count (counts r) c =
                count_list (map (\<lambda>x. categorize_duration (duration_minutes x)) ts) c)))
   \<and> (duration_analysis L events = Inr None \<longrightarrow> filter is_timed events = [])"
proof -
  have a: "sum_list (map snd (counts r)) = length (filter is_timed events)
       \<and> (\<exists>ts. timed_events L events = Inr ts \<and>
             (\<forall>c. bucket_count (counts r) c =
                count_list (map (\<lambda>x. categorize_duration (duration_minutes x)) ts) c))"
    if h: "duration_analysis L events = Inr (Some r)" for r
  proof -
    from duration_analysis_cases [OF h] obtain ts where
      ts: "timed_events L events = Inr ts"
      and r: "r = \<lparr>counts = category_counts ts, avg_duration = mean (map duration_minutes ts)\<rparr>"
      by (cases "ts = []") auto
    show ?thesis
      using ts r timed_events_length [OF ts]
      by (simp add: sum_category_counts bucket_count_category_counts)
  qed
  have b: "filter is_timed events = []" if h: "duration_analysis L events = Inr None"
  proof -
    from duration_analysis_cases [OF h] obtain ts where
      ts: "timed_events L events = Inr ts" and "ts = []"
      by (cases "ts = []") auto
    with timed_events_length [OF ts] show ?thesis by simp
  qed
  from a b show ?thesis by blast
qed

lemma mixed_events_analysis:
  "duration_analysis iso_stdlib mixed_events =
     Inr (Some \<lparr>counts = [(''16-30 minutes'', 1), (''31-60 minutes'', 1), (''2+ hours'', 1)],
                avg_duration = 100\<rparr>)"
  by code_simp

lemma all_day_only_analysis:
  "duration_analysis iso_stdlib [all_day ''holiday'' ''2024-01-15'' ''2024-01-16''] = Inr None"
  by code_simp

theorem duration_counts_sum_witness:
  "(\<exists>r. duration_analysis iso_stdlib mixed_events = Inr (Some r)
        \<and> sum_list (map snd (counts r)) = length (filter is_timed mixed_events)
        \<and> sum_list (map snd (counts r)) = 3 \<and> length mixed_events = 4)
   \<and> duration_analysis iso_stdlib [all_day ''holiday'' ''2024-01-15'' ''2024-01-16''] = Inr None
   \<and> filter is_timed [all_day ''holiday'' ''2024-01-15'' ''2024-01-16''] = []"
proof -
  have len: "length mixed_events = 4"
    by (simp add: mixed_events_def example_events_def)
  show ?thesis
    using duration_counts_sum [of iso_stdlib mixed_events]
      duration_counts_sum [of iso_stdlib "[all_day ''holiday'' ''2024-01-15'' ''2024-01-16'']"]
      mixed_events_analysis all_day_only_analysis len
    by simp
qed

subsection \<open>The average duration\<close>

text \<open>
  C5. The average is computed exactly when there is a timed event (otherwise the section
  only prints a notice), and it is then the sum of the durations of the timed events, in
  minutes, divided by their number; the section does return when every timed event is
  well formed.
\<close>

theorem average_duration:
  "(list_all (\<lambda>e. is_timed e \<longrightarrow> well_timed L e) events \<longrightarrow>
      (\<exists>res. duration_analysis L events = Inr res))
   \<and> (\<forall>res. duration_analysis L events = Inr res \<longrightarrow>
        (res = None \<longleftrightarrow> filter is_timed events = [])
        \<and> (\<exists>ts. timed_events L events = Inr ts
              \<and> length ts = length (filter is_timed events)
              \<and> (\<forall>r. res = Some r \<longrightarrow>
                    avg_duration r =
                      sum_list (map duration_minutes ts)
                        / of_nat (length (filter is_timed events)))))"
proof -
  have total: "\<exists>res. duration_analysis L events = Inr res"
    if "list_all (\<lambda>e. is_timed e \<longrightarrow> well_timed L e) events"
  proof -
    from that timed_events_total [of events L] obtain ts where
      "timed_events L events = Inr ts" by (auto simp: list_all_iff)
    then show ?thesis by (simp add: duration_analysis_def)
  qed
  have part: "(res = None \<longleftrightarrow> filter is_timed events = [])
        \<and> (\<exists>ts. timed_events L events = Inr ts
              \<and> length ts = length (filter is_timed events)
              \<and> (\<forall>r. res = Some r \<longrightarrow>
                    avg_duration r =
                      sum_list (map duration_minutes ts)
                        / of_nat (length (filter is_timed events))))"
    if h: "duration_analysis L events = Inr res" for res
  proof -
    from duration_analysis_cases [OF h] obtain ts where
      ts: "timed_events L events = Inr ts"
      and e: "ts = [] \<longrightarrow> res = None"
      and n: "ts \<noteq> [] \<longrightarrow> res = Some \<lparr>counts = category_counts ts,
                              avg_duration = mean (map duration_minutes ts)\<rparr>"
      by blast
    note len = timed_events_length [OF ts]
    have iff: "res = None \<longleftrightarrow> filter is_timed events = []"
      using e n len by (cases "ts = []") auto
    have avg: "avg_duration r =
        sum_list (map duration_minutes ts) / of_nat (length (filter is_timed events))"
      if "res = Some r" for r
      using that e n len by (cases "ts = []") (auto simp: mean_def)
    from ts len iff avg show ?thesis by blast
  qed
  from total part show ?thesis by blast
qed

theorem average_duration_witness:
  "list_all (\<lambda>e. is_timed e \<longrightarrow> well_timed iso_stdlib e) mixed_events
   \<and> (\<exists>r ts. duration_analysis iso_stdlib mixed_events = Inr (Some r)
        \<and> timed_events iso_stdlib mixed_events = Inr ts
        \<and> map duration_minutes ts = [30, 60, 210]
        \<and> length (filter is_timed mixed_events) = 3
        \<and> avg_duration r = (30 + 60 + 210) / 3)
   \<and> duration_analysis iso_stdlib [all_day ''holiday'' ''2024-01-15'' ''2024-01-16''] = Inr None
   \<and> filter is_timed [all_day ''holiday'' ''2024-01-15'' ''2024-01-16''] = []"
proof -
  have len: "length (filter is_timed mixed_events) = 3"
    by (simp add: mixed_events_filter example_events_def)
  show ?thesis
    using average_duration [of iso_stdlib mixed_events]
      average_duration [of iso_stdlib "[all_day ''holiday'' ''2024-01-15'' ''2024-01-16'']"]
      mixed_events_well_timed mixed_events_analysis mixed_events_timed all_day_only_analysis len
    by simp
qed

lemma datetime_sub_same_day:
  "datetime_sub (at_time d h2 m2 off) (at_time d h1 m1 off) =
     Inr (((m2 + h2 * 60) - (m1 + h1 * 60)) * 60 * 1000000)"
  by (cases off) (simp_all add: datetime_sub_def at_time_def toordinal_def Let_def algebra_simps)

lemma timed_event_of_at_time:
  assumes "is_timed e"
    and "dateTime (start e) = Some s" and "dateTime (end' e) = Some t"
    and "fromisoformat L (replace_Z s) = Some (at_time d h1 m1 off)"
    and "fromisoformat L (replace_Z t) = Some (at_time d h2 m2 off)"
  shows "\<exists>x. timed_event_of L e = Inr (Some x)
     \<and> duration_minutes x = of_int ((m2 + h2 * 60) - (m1 + h1 * 60))"
  using assms
  by (simp add: timed_event_of_def is_timed_def has_value_def datetime_sub_same_day
      total_seconds_def)

lemma category_counts_30_60:
  "duration_minutes a = 30 \<Longrightarrow> duration_minutes b = 60 \<Longrightarrow>
   category_counts [a, b] = [(''16-30 minutes'', 1), (''31-60 minutes'', 1)]"
  by (simp add: category_counts_def value_counts_def unique_def categorize_duration_def
      category_order_def)

subsection \<open>The example of the specification\<close>

text \<open>
  C2, as the code has it. For two timed events on the same day, 09:00 to 09:30 and 10:00
  to 11:00, the chart has the rows "16-30 minutes": 1 and "31-60 minutes": 1 and no row
  for "1-2 hours" (a duration of exactly 60 minutes is in "31-60 minutes"), and the
  average is 45 minutes.
\<close>

theorem example_buckets:
  assumes "is_timed e1" and "is_timed e2"
    and "dateTime (start e1) = Some s1" and "dateTime (end' e1) = Some t1"
    and "dateTime (start e2) = Some s2" and "dateTime (end' e2) = Some t2"
    and "fromisoformat L (replace_Z s1) = Some (at_time d 9 0 off)"
    and "fromisoformat L (replace_Z t1) = Some (at_time d 9 30 off)"
    and "fromisoformat L (replace_Z s2) = Some (at_time d 10 0 off)"
    and "fromisoformat L (replace_Z t2) = Some (at_time d 11 0 off)"
  shows "\<exists>r. duration_analysis L [e1, e2] = Inr (Some r)
     \<and> counts r = [(''16-30 minutes'', 1), (''31-60 minutes'', 1)]
     \<and> bucket_count (counts r) ''16-30 minutes'' = 1
     \<and> bucket_count (counts r) ''31-60 minutes'' = 1
     \<and> bucket_count (counts r) ''1-2 hours'' = 0
     \<and> avg_duration r = 45"
proof -
  from timed_event_of_at_time [OF assms(1) assms(3) assms(4) assms(7) assms(8)]
  obtain a where a: "timed_event_of L e1 = Inr (Some a)" "duration_minutes a = 30"
    by auto
  from timed_event_of_at_time [OF assms(2) assms(5) assms(6) assms(9) assms(10)]
  obtain b where b: "timed_event_of L e2 = Inr (Some b)" "duration_minutes b = 60"
    by auto
  have ts: "timed_events L [e1, e2] = Inr [a, b]"
    using a b by simp
  have "duration_analysis L [e1, e2] =
      Inr (Some \<lparr>counts = [(''16-30 minutes'', 1), (''31-60 minutes'', 1)], avg_duration = 45\<rparr>)"
    using ts a(2) b(2) by (simp add: duration_analysis_def category_counts_30_60 mean_def)
  then show ?thesis by (simp add: bucket_count_def)
qed

lemma example_events_parse:
  "fromisoformat iso_stdlib (replace_Z ''2024-01-15T09:00:00Z'')
     = Some (at_time \<lparr>year = 2024, month = 1, day = 15\<rparr> 9 0 (Some 0))"
  "fromisoformat iso_stdlib (replace_Z ''2024-01-15T09:30:00Z'')
     = Some (at_time \<lparr>year = 2024, month = 1, day = 15\<rparr> 9 30 (Some 0))"
  "fromisoformat iso_stdlib (replace_Z ''2024-01-15T10:00:00Z'')
     = Some (at_time \<lparr>year = 2024, month = 1, day = 15\<rparr> 10 0 (Some 0))"
  "fromisoformat iso_stdlib (replace_Z ''2024-01-15T11:00:00Z'')
     = Some (at_time \<lparr>year = 2024, month = 1, day = 15\<rparr> 11 0 (Some 0))"
  by code_simp+

lemma example_events_analysis:
  "duration_analysis iso_stdlib example_events =
     Inr (Some \<lparr>counts = [(''16-30 minutes'', 1), (''31-60 minutes'', 1)], avg_duration = 45\<rparr>)"
  by code_simp

theorem example_buckets_witness:
  "is_timed (timed ''standup'' ''2024-01-15T09:00:00Z'' ''2024-01-15T09:30:00Z'')
   \<and> is_timed (timed ''review'' ''2024-01-15T10:00:00Z'' ''2024-01-15T11:00:00Z'')
   \<and> fromisoformat iso_stdlib (replace_Z ''2024-01-15T09:00:00Z'')
        = Some (at_time \<lparr>year = 2024, month = 1, day = 15\<rparr> 9 0 (Some 0))
   \<and> fromisoformat iso_stdlib (replace_Z ''2024-01-15T09:30:00Z'')
        = Some (at_time \<lparr>year = 2024, month = 1, day = 15\<rparr> 9 30 (Some 0))
   \<and> fromisoformat iso_stdlib (replace_Z ''2024-01-15T10:00:00Z'')
        = Some (at_time \<lparr>year = 2024, month = 1, day = 15\<rparr> 10 0 (Some 0))
   \<and> fromisoformat iso_stdlib (replace_Z ''2024-01-15T11:00:00Z'')
        = Some (at_time \<lparr>year = 2024, month = 1, day = 15\<rparr> 11 0 (Some 0))
   \<and> (\<exists>r. duration_analysis iso_stdlib example_events = Inr (Some r)
        \<and> counts r = [(''16-30 minutes'', 1), (''31-60 minutes'', 1)]
        \<and> bucket_count (counts r) ''16-30 minutes'' = 1
        \<and> bucket_count (counts r) ''31-60 minutes'' = 1
        \<and> bucket_count (counts r) ''1-2 hours'' = 0
        \<and> avg_duration r = 45)"
proof -
  have t1: "is_timed (timed ''standup'' ''2024-01-15T09:00:00Z'' ''2024-01-15T09:30:00Z'')"
    and t2: "is_timed (timed ''review'' ''2024-01-15T10:00:00Z'' ''2024-01-15T11:00:00Z'')"
    by (simp_all add: is_timed_def has_value_def timed_def)
  have "\<exists>r. duration_analysis iso_stdlib example_events = Inr (Some r)
        \<and> counts r = [(''16-30 minutes'', 1), (''31-60 minutes'', 1)]
        \<and> bucket_count (counts r) ''16-30 minutes'' = 1
        \<and> bucket_count (counts r) ''31-60 minutes'' = 1
        \<and> bucket_count (counts r) ''1-2 hours'' = 0
        \<and> avg_duration r = 45"
    unfolding example_events_def
    by (rule example_buckets [OF t1 t2 _ _ _ _ example_events_parse])
       (simp_all add: timed_def)
  with t1 t2 example_events_parse show ?thesis by simp
qed

theorem example_buckets_counterexample:
  "\<not> (\<exists>r. duration_analysis iso_stdlib example_events = Inr (Some r)
        \<and> bucket_count (counts r) ''16-30 minutes'' = 1
        \<and> bucket_count (counts r) ''31-60 minutes'' = 0
        \<and> bucket_count (counts r) ''1-2 hours'' = 1
        \<and> avg_duration r = 45)"
  by (simp add: example_events_analysis bucket_count_def)

subsection \<open>Counting by weekday\<close>

lemma weekday_range: "0 \<le> weekday d \<and> weekday d < 7"
  by (simp add: weekday_def)

lemma strftime_A_in_names: "strftime_A d \<in> set DAY_NAMES"
proof -
  have "nat (weekday d) < 7"
    using weekday_range [of d] by linarith
  moreover have "length DAY_NAMES = 7"
    by (simp add: DAY_NAMES_def)
  ultimately have "nat (weekday d) < length DAY_NAMES" by simp
  then show ?thesis unfolding strftime_A_def by (rule nth_mem)
qed

lemma increment_total: "k \<in> fst ` set dc \<Longrightarrow> \<exists>dc'. increment k dc = Inr dc'"
proof (induction dc)
  case Nil
  then show ?case by simp
next
  case (Cons x dc)
  obtain k' n where x: "x = (k', n)" by (cases x)
  show ?case
  proof (cases "k = k'")
    case True
    with x show ?thesis by simp
  next
    case False
    with Cons.prems x have "k \<in> fst ` set dc" by auto
    from Cons.IH [OF this] obtain dc' where "increment k dc = Inr dc'" by blast
    with False x show ?thesis by simp
  qed
qed

lemma increment_keys: "increment k dc = Inr dc' \<Longrightarrow> map fst dc' = map fst dc"
  by (induction dc arbitrary: dc') (auto split: sum.splits if_splits)

lemma increment_sum:
  "increment k dc = Inr dc' \<Longrightarrow> sum_list (map snd dc') = Suc (sum_list (map snd dc))"
  by (induction dc arbitrary: dc') (auto split: sum.splits if_splits)

lemma increment_bucket:
  "increment k dc = Inr dc' \<Longrightarrow>
   bucket_count dc' x = (if x = k then Suc (bucket_count dc x) else bucket_count dc x)"
  by (induction dc arbitrary: dc') (auto simp: bucket_count_def split: sum.splits if_splits)

lemma day_counts_loop_result:
  "day_counts_loop L dc es = Inr dc' \<Longrightarrow>
   map fst dc' = map fst dc
   \<and> sum_list (map snd dc') = sum_list (map snd dc) + length es
   \<and> (\<forall>e\<in>set es. \<exists>x. day_name_of L e = Some x \<and> x \<in> set DAY_NAMES)
   \<and> (\<forall>x. bucket_count dc' x
          = bucket_count dc x + length (filter (\<lambda>e. day_name_of L e = Some x) es))"
proof (induction es arbitrary: dc)
  case Nil
  then show ?case by simp
next
  case (Cons e es)
  from Cons.prems obtain dt dc1 where
    dt: "parse_start L e = Inr dt" and inc: "increment (strftime_A dt) dc = Inr dc1"
    and rest: "day_counts_loop L dc1 es = Inr dc'"
    by (auto split: sum.splits)
  have name: "day_name_of L e = Some (strftime_A dt)"
    using dt by (simp add: day_name_of_def)
  note IH = Cons.IH [OF rest]
  have keys: "map fst dc' = map fst dc"
    using IH increment_keys [OF inc] by simp
  have total: "sum_list (map snd dc') = sum_list (map snd dc) + length (e # es)"
    using IH increment_sum [OF inc] by simp
  have each: "\<forall>e'\<in>set (e # es). \<exists>x. day_name_of L e' = Some x \<and> x \<in> set DAY_NAMES"
    using IH name strftime_A_in_names [of dt] by simp
  have buckets: "bucket_count dc' x
      = bucket_count dc x + length (filter (\<lambda>e. day_name_of L e = Some x) (e # es))" for x
    using IH increment_bucket [OF inc, of x] name by auto
  from keys total each buckets show ?case by blast
qed

lemma day_counts_loop_total:
  "\<forall>e\<in>set es. \<exists>dt. parse_start L e = Inr dt \<Longrightarrow> set DAY_NAMES \<subseteq> fst ` set dc \<Longrightarrow>
   \<exists>dc'. day_counts_loop L dc es = Inr dc'"
proof (induction es arbitrary: dc)
  case Nil
  then show ?case by simp
next
  case (Cons e es)
  from Cons.prems obtain dt where dt: "parse_start L e = Inr dt" by auto
  have "strftime_A dt \<in> fst ` set dc"
    using strftime_A_in_names [of dt] Cons.prems(2) by blast
  from increment_total [OF this] obtain dc1 where
    inc: "increment (strftime_A dt) dc = Inr dc1" by blast
  have "set DAY_NAMES \<subseteq> fst ` set dc1"
    using Cons.prems(2) increment_keys [OF inc] by (metis set_map)
  from Cons.IH [OF _ this] Cons.prems(1) obtain dc' where
    "day_counts_loop L dc1 es = Inr dc'" by auto
  with dt inc show ?case by simp
qed

text \<open>
  C3. In the weekday analysis every event gets exactly one day name, one of the seven of
  \<open>DAY_NAMES\<close>; the dict keeps its seven keys, the count of a name is the number of events
  with that name, and the seven counts sum to the number of events. The loop does return
  the counts when the start of every event parses.
\<close>

theorem weekday_counts:
  "(list_all (\<lambda>e. day_name_of L e \<noteq> None) events \<longrightarrow> (\<exists>dc. day_counts L events = Inr dc))
   \<and> (\<forall>dc. day_counts L events = Inr dc \<longrightarrow>
        map fst dc = DAY_NAMES
        \<and> (\<forall>e\<in>set events. \<exists>x. day_name_of L e = Some x \<and> x \<in> set DAY_NAMES)
        \<and> (\<forall>x. bucket_count dc x = length (filter (\<lambda>e. day_name_of L e = Some x) events))
        \<and> sum_list (map snd dc) = length events)"
proof -
  have names: "set DAY_NAMES \<subseteq> fst ` set initial_day_counts"
    by (simp add: DAY_NAMES_def initial_day_counts_def)
  have total: "\<exists>dc. day_counts L events = Inr dc"
    if "list_all (\<lambda>e. day_name_of L e \<noteq> None) events"
  proof -
    have "\<exists>dt. parse_start L e = Inr dt" if "e \<in> set events" for e
    proof (cases "parse_start L e")
      case (Inl err)
      with that \<open>list_all (\<lambda>e. day_name_of L e \<noteq> None) events\<close> show ?thesis
        by (auto simp: list_all_iff day_name_of_def)
    next
      case (Inr dt)
      then show ?thesis by blast
    qed
    then have "\<forall>e\<in>set events. \<exists>dt. parse_start L e = Inr dt" by blast
    from day_counts_loop_total [OF this names] show ?thesis
      by (simp add: day_counts_def)
  qed
  have init: "map fst initial_day_counts = DAY_NAMES"
    "sum_list (map snd initial_day_counts) = 0"
    "bucket_count initial_day_counts x = 0" for x
    by (simp_all add: DAY_NAMES_def initial_day_counts_def bucket_count_def)
  have part: "map fst dc = DAY_NAMES
        \<and> (\<forall>e\<in>set events. \<exists>x. day_name_of L e = Some x \<and> x \<in> set DAY_NAMES)
        \<and> (\<forall>x. bucket_count dc x = length (filter (\<lambda>e. day_name_of L e = Some x) events))
        \<and> sum_list (map snd dc) = length events"
    if "day_counts L events = Inr dc" for dc
    using day_counts_loop_result [of L initial_day_counts events dc] that init
    by (simp add: day_counts_def)
  from total part show ?thesis by blast
qed

lemma mixed_events_day_counts:
  "day_counts iso_stdlib mixed_events =
     Inr [(''Monday'', 3), (''Tuesday'', 1), (''Wednesday'', 0), (''Thursday'', 0),
          (''Friday'', 0), (''Saturday'', 0), (''Sunday'', 0)]"
  by code_simp

theorem weekday_counts_witness:
  "list_all (\<lambda>e. day_name_of iso_stdlib e \<noteq> None) mixed_events
   \<and> (\<exists>dc. day_counts iso_stdlib mixed_events = Inr dc
        \<and> map fst dc = DAY_NAMES
        \<and> map snd dc = [3, 1, 0, 0, 0, 0, 0]
        \<and> sum_list (map snd dc) = length mixed_events)
   \<and> length mixed_events = 4"
proof -
  have wf: "list_all (\<lambda>e. day_name_of iso_stdlib e \<noteq> None) mixed_events"
    by code_simp
  have len: "length mixed_events = 4"
    by (simp add: mixed_events_def example_events_def)
  show ?thesis
    using weekday_counts [of iso_stdlib mixed_events] wf len mixed_events_day_counts
    by simp
qed

subsection \<open>Grouping by date\<close>

lemma event_entry_date:
  "event_entry L e = Inr (d, r) \<Longrightarrow> event_date L e = Some d"
  by (auto simp: event_entry_def event_date_def parse_start_def
      split: option.splits if_splits sum.splits)

lemma event_entry_total:
  "event_date L e = Some d \<Longrightarrow> \<exists>r. event_entry L e = Inr (d, r)"
  by (auto simp: event_entry_def event_date_def parse_start_def
      split: option.splits if_splits sum.splits)

lemma event_entry_datetime:
  "start_string e = Some s \<Longrightarrow> CHR ''T'' \<in> set s \<Longrightarrow>
   fromisoformat L (replace_Z s) = Some dt \<Longrightarrow>
   \<exists>r. event_entry L e = Inr (date_of dt, r) \<and> r_time r = strftime_HM dt"
  by (simp add: event_entry_def)

lemma append_to_keys: "fst ` set (append_to d r m) = insert d (fst ` set m)"
  by (induction d r m rule: append_to.induct) auto

lemma append_to_distinct: "distinct (map fst m) \<Longrightarrow> distinct (map fst (append_to d r m))"
proof (induction m)
  case Nil
  then show ?case by simp
next
  case (Cons x m)
  obtain k rs where x: "x = (k, rs)" by (cases x)
  show ?case
  proof (cases "k = d")
    case True
    with Cons.prems x show ?thesis by simp
  next
    case False
    have "k \<notin> fst ` set (append_to d r m)"
      using Cons.prems x False by (simp add: append_to_keys)
    with Cons x False show ?thesis by simp
  qed
qed

lemma append_to_bucket:
  "bucket (append_to d r m) k = (if k = d then bucket m d @ [r] else bucket m k)"
  by (induction d r m rule: append_to.induct) (auto simp: bucket_def)

lemma events_by_date_loop_result:
  "events_by_date_loop L acc es = Inr m \<Longrightarrow>
   (distinct (map fst acc) \<longrightarrow> distinct (map fst m))
   \<and> fst ` set m = fst ` set acc \<union> {d. \<exists>e\<in>set es. event_date L e = Some d}
   \<and> (\<forall>e\<in>set es. event_date L e \<noteq> None)
   \<and> (\<forall>d. \<exists>rs. bucket m d = bucket acc d @ rs
          \<and> list_all2 (\<lambda>r e. event_entry L e = Inr (d, r)) rs
               (filter (\<lambda>e. event_date L e = Some d) es))"
proof (induction es arbitrary: acc)
  case Nil
  then show ?case by simp
next
  case (Cons e es)
  from Cons.prems obtain k r where
    entry: "event_entry L e = Inr (k, r)"
    and rest: "events_by_date_loop L (append_to k r acc) es = Inr m"
    by (auto split: sum.splits)
  note date = event_entry_date [OF entry]
  note IH = Cons.IH [OF rest]
  have dist: "distinct (map fst acc) \<longrightarrow> distinct (map fst m)"
    using IH append_to_distinct [of acc k r] by blast
  have keys: "fst ` set m = fst ` set acc \<union> {d. \<exists>e'\<in>set (e # es). event_date L e' = Some d}"
    using IH date by (auto simp: append_to_keys)
  have parsed: "\<forall>e'\<in>set (e # es). event_date L e' \<noteq> None"
    using IH date by simp
  have buckets: "\<exists>rs. bucket m d = bucket acc d @ rs
          \<and> list_all2 (\<lambda>r e. event_entry L e = Inr (d, r)) rs
               (filter (\<lambda>e. event_date L e = Some d) (e # es))" for d
  proof -
    from IH obtain rs where
      rs: "bucket m d = bucket (append_to k r acc) d @ rs"
      and rel: "list_all2 (\<lambda>r e. event_entry L e = Inr (d, r)) rs
               (filter (\<lambda>e. event_date L e = Some d) es)"
      by blast
    show ?thesis
    proof (cases "d = k")
      case True
      have "bucket m d = bucket acc d @ (r # rs)"
        using rs True by (simp add: append_to_bucket)
      moreover have "list_all2 (\<lambda>r e. event_entry L e = Inr (d, r)) (r # rs)
               (filter (\<lambda>e. event_date L e = Some d) (e # es))"
        using rel entry date True by simp
      ultimately show ?thesis by blast
    next
      case False
      have "bucket m d = bucket acc d @ rs"
        using rs False by (simp add: append_to_bucket)
      moreover have "list_all2 (\<lambda>r e. event_entry L e = Inr (d, r)) rs
               (filter (\<lambda>e. event_date L e = Some d) (e # es))"
        using rel date False by simp
      ultimately show ?thesis by blast
    qed
  qed
  from dist keys parsed buckets show ?case by blast
qed

lemma events_by_date_loop_total:
  "\<forall>e\<in>set es. event_date L e \<noteq> None \<Longrightarrow> \<exists>m. events_by_date_loop L acc es = Inr m"
proof (induction es arbitrary: acc)
  case Nil
  then show ?case by simp
next
  case (Cons e es)
  from Cons.prems obtain d where "event_date L e = Some d" by auto
  from event_entry_total [OF this] obtain r where entry: "event_entry L e = Inr (d, r)"
    by blast
  from Cons.IH [of "append_to d r acc"] Cons.prems obtain m where
    "events_by_date_loop L (append_to d r acc) es = Inr m" by auto
  with entry show ?case by simp
qed

lemma events_by_date_buckets:
  assumes "events_by_date L events = Inr m"
  shows "distinct (map fst m)"
    and "\<forall>e\<in>set events. \<exists>d. event_date L e = Some d \<and> d \<in> fst ` set m"
    and "(d, rs) \<in> set m \<Longrightarrow>
         filter (\<lambda>e. event_date L e = Some d) events \<noteq> []
         \<and> list_all2 (\<lambda>r e. event_entry L e = Inr (d, r)) rs
               (filter (\<lambda>e. event_date L e = Some d) events)"
proof -
  note res = events_by_date_loop_result [OF assms [unfolded events_by_date_def]]
  from res show dist: "distinct (map fst m)" by simp
  from res have keys: "fst ` set m = {d. \<exists>e\<in>set events. event_date L e = Some d}"
    and parsed: "\<forall>e\<in>set events. event_date L e \<noteq> None"
    by simp_all
  show "\<forall>e\<in>set events. \<exists>d. event_date L e = Some d \<and> d \<in> fst ` set m"
  proof
    fix e assume e: "e \<in> set events"
    with parsed obtain d where d: "event_date L e = Some d" by auto
    with e keys have "d \<in> fst ` set m" by blast
    with d show "\<exists>d. event_date L e = Some d \<and> d \<in> fst ` set m" by blast
  qed
  assume mem: "(d, rs) \<in> set m"
  with dist have "map_of m d = Some rs" by simp
  then have b: "bucket m d = rs" by (simp add: bucket_def)
  from res obtain rs' where "bucket m d = bucket [] d @ rs'"
    and rel: "list_all2 (\<lambda>r e. event_entry L e = Inr (d, r)) rs'
               (filter (\<lambda>e. event_date L e = Some d) events)"
    by blast
  with b have eq: "rs' = rs" by (simp add: bucket_def)
  from mem have "d \<in> fst ` set m" by force
  with keys have "\<exists>e\<in>set events. event_date L e = Some d" by blast
  then have "filter (\<lambda>e. event_date L e = Some d) events \<noteq> []"
    by (auto simp: filter_empty_conv)
  with rel eq show "filter (\<lambda>e. event_date L e = Some d) events \<noteq> []
         \<and> list_all2 (\<lambda>r e. event_entry L e = Inr (d, r)) rs
               (filter (\<lambda>e. event_date L e = Some d) events)" by simp
qed

lemma event_date_datetime:
  "start_string e = Some s \<Longrightarrow> CHR ''T'' \<in> set s \<Longrightarrow>
   fromisoformat L (replace_Z s) = Some dt \<Longrightarrow> event_date L e = Some (date_of dt)"
  by (simp add: event_date_def parse_start_def)

text \<open>
  C6. An event whose start string is a date-time (it contains \<open>T\<close>) is filed under the
  date component of its parsed timestamp. In the dict the grouping builds, the keys are
  distinct, every event has its date among them, and the list of a date holds, in order,
  exactly the records of the events whose calendar date is that date. The grouping does
  return the dict when the start of every event parses.
\<close>

theorem bucket_dates:
  "(\<forall>s dt. start_string e = Some s \<and> CHR ''T'' \<in> set s
        \<and> fromisoformat L (replace_Z s) = Some dt \<longrightarrow>
        event_date L e = Some (date_of dt) \<and> (\<exists>r. event_entry L e = Inr (date_of dt, r)))
   \<and> (list_all (\<lambda>e. event_date L e \<noteq> None) events \<longrightarrow>
        (\<exists>m. events_by_date L events = Inr m))
   \<and> (\<forall>m. events_by_date L events = Inr m \<longrightarrow>
        distinct (map fst m)
        \<and> (\<forall>e\<in>set events. \<exists>d. event_date L e = Some d \<and> d \<in> fst ` set m)
        \<and> (\<forall>(d, rs)\<in>set m.
              filter (\<lambda>e. event_date L e = Some d) events \<noteq> []
              \<and> list_all2 (\<lambda>r e. event_entry L e = Inr (d, r)) rs
                   (filter (\<lambda>e. event_date L e = Some d) events)))"
proof -
  have key: "event_date L e = Some (date_of dt) \<and> (\<exists>r. event_entry L e = Inr (date_of dt, r))"
    if "start_string e = Some s \<and> CHR ''T'' \<in> set s
        \<and> fromisoformat L (replace_Z s) = Some dt" for s dt
    using that event_date_datetime [of e s L dt] event_entry_datetime [of e s L dt] by blast
  have total: "\<exists>m. events_by_date L events = Inr m"
    if "list_all (\<lambda>e. event_date L e \<noteq> None) events"
    using that events_by_date_loop_total [of events L "[]"]
    by (simp add: events_by_date_def list_all_iff)
  have buckets: "distinct (map fst m)
        \<and> (\<forall>e\<in>set events. \<exists>d. event_date L e = Some d \<and> d \<in> fst ` set m)
        \<and> (\<forall>(d, rs)\<in>set m.
              filter (\<lambda>e. event_date L e = Some d) events \<noteq> []
              \<and> list_all2 (\<lambda>r e. event_entry L e = Inr (d, r)) rs
                   (filter (\<lambda>e. event_date L e = Some d) events))"
    if m: "events_by_date L events = Inr m" for m
    using events_by_date_buckets(1) [OF m] events_by_date_buckets(2) [OF m]
      events_by_date_buckets(3) [OF m]
    by blast
  show ?thesis
  proof (intro conjI)
    show "\<forall>s dt. start_string e = Some s \<and> CHR ''T'' \<in> set s
        \<and> fromisoformat L (replace_Z s) = Some dt \<longrightarrow>
        event_date L e = Some (date_of dt) \<and> (\<exists>r. event_entry L e = Inr (date_of dt, r))"
      using key by blast
    show "list_all (\<lambda>e. event_date L e \<noteq> None) events \<longrightarrow>
        (\<exists>m. events_by_date L events = Inr m)"
      using total by blast
    show "\<forall>m. events_by_date L events = Inr m \<longrightarrow>
        distinct (map fst m)
        \<and> (\<forall>e\<in>set events. \<exists>d. event_date L e = Some d \<and> d \<in> fst ` set m)
        \<and> (\<forall>(d, rs)\<in>set m.
              filter (\<lambda>e. event_date L e = Some d) events \<noteq> []
              \<and> list_all2 (\<lambda>r e. event_entry L e = Inr (d, r)) rs
                   (filter (\<lambda>e. event_date L e = Some d) events))"
      using buckets by blast
  qed
qed

lemma mixed_events_by_date:
  "events_by_date iso_stdlib mixed_events = Inr [(jan15, jan15_records), (jan16, jan16_records)]"
  by code_simp

lemma mixed_events_parsed: "list_all (\<lambda>e. event_date iso_stdlib e \<noteq> None) mixed_events"
  by code_simp

lemma workshop_start:
  "start_string workshop = Some ''2024-01-16T13:00:00+01:00''"
  "CHR ''T'' \<in> set ''2024-01-16T13:00:00+01:00''"
  "fromisoformat iso_stdlib (replace_Z ''2024-01-16T13:00:00+01:00'')
     = Some (at_time jan16 13 0 (Some 3600000000))"
  "date_of (at_time jan16 13 0 (Some 3600000000)) = jan16"
  by code_simp+

theorem bucket_dates_witness:
  "start_string workshop = Some ''2024-01-16T13:00:00+01:00''
   \<and> CHR ''T'' \<in> set ''2024-01-16T13:00:00+01:00''
   \<and> fromisoformat iso_stdlib (replace_Z ''2024-01-16T13:00:00+01:00'')
        = Some (at_time jan16 13 0 (Some 3600000000))
   \<and> event_date iso_stdlib workshop = Some jan16
   \<and> list_all (\<lambda>e. event_date iso_stdlib e \<noteq> None) mixed_events
   \<and> (\<exists>m. events_by_date iso_stdlib mixed_events = Inr m
        \<and> map fst m = [jan15, jan16]
        \<and> map (length \<circ> snd) m = [3, 1]
        \<and> distinct (map fst m))"
proof -
  have date: "event_date iso_stdlib workshop = Some jan16"
  proof -
    have pre: "start_string workshop = Some ''2024-01-16T13:00:00+01:00''
        \<and> CHR ''T'' \<in> set ''2024-01-16T13:00:00+01:00''
        \<and> fromisoformat iso_stdlib (replace_Z ''2024-01-16T13:00:00+01:00'')
            = Some (at_time jan16 13 0 (Some 3600000000))"
      using workshop_start(1,2,3) by (intro conjI)
    from bucket_dates [of workshop iso_stdlib mixed_events,
        THEN conjunct1, rule_format, OF pre]
    show ?thesis by (simp only: workshop_start(4))
  qed
  have "distinct (map fst [(jan15, jan15_records), (jan16, jan16_records)])"
    using bucket_dates [of workshop iso_stdlib mixed_events] mixed_events_by_date
    by blast
  then have res: "\<exists>m. events_by_date iso_stdlib mixed_events = Inr m
        \<and> map fst m = [jan15, jan16]
        \<and> map (length \<circ> snd) m = [3, 1]
        \<and> distinct (map fst m)"
    by (simp add: mixed_events_by_date jan15_records_def jan16_records_def)
  from workshop_start(1,2,3) date mixed_events_parsed res show ?thesis
    by (intro conjI)
qed

text \<open>
  C7. The grouping keeps the order of its input: for any order \<open>R\<close> the input is sorted by,
  chronological order of start time in particular, the events of every date bucket are
  sorted by \<open>R\<close>, and the bucket holds their records in that order.
\<close>

theorem bucket_order:
  "sorted_wrt R events \<Longrightarrow> events_by_date L events = Inr m \<Longrightarrow> (d, rs) \<in> set m \<Longrightarrow>
   \<exists>es. es = filter (\<lambda>e. event_date L e = Some d) events
     \<and> sorted_wrt R es
     \<and> list_all2 (\<lambda>r e. event_entry L e = Inr (d, r)) rs es"
  using events_by_date_buckets(3) [of L events m d rs]
  by (simp add: sorted_wrt_filter)

lemma mixed_events_sorted: "sorted_wrt (starts_before iso_stdlib) mixed_events"
  by code_simp

theorem bucket_order_witness:
  "sorted_wrt (starts_before iso_stdlib) mixed_events
   \<and> events_by_date iso_stdlib mixed_events = Inr [(jan15, jan15_records), (jan16, jan16_records)]
   \<and> (jan15, jan15_records) \<in> set [(jan15, jan15_records), (jan16, jan16_records)]
   \<and> map r_time jan15_records = [''All day'', ''09:00'', ''10:00'']
   \<and> (\<exists>es. es = filter (\<lambda>e. event_date iso_stdlib e = Some jan15) mixed_events
        \<and> sorted_wrt (starts_before iso_stdlib) es
        \<and> list_all2 (\<lambda>r e. event_entry iso_stdlib e = Inr (jan15, r)) jan15_records es)"
proof -
  have mem: "(jan15, jan15_records) \<in> set [(jan15, jan15_records), (jan16, jan16_records)]"
    by simp
  have times: "map r_time jan15_records = [''All day'', ''09:00'', ''10:00'']"
    by (simp add: jan15_records_def)
  from mixed_events_sorted mixed_events_by_date mem times
    bucket_order [OF mixed_events_sorted mixed_events_by_date mem]
  show ?thesis by (intro conjI)
qed

subsection \<open>Calendar arithmetic\<close>

lemma div_step:
  fixes y k :: int
  assumes "0 < k"
  shows "y div k = (y - 1) div k + (if y mod k = 0 then 1 else 0)"
proof -
  define q where "q = (y - 1) div k"
  define r where "r = (y - 1) mod k"
  have r: "0 \<le> r" "r < k" using assms by (simp_all add: r_def)
  have y: "y = q * k + (r + 1)" by (simp add: q_def r_def)
  show ?thesis
  proof (cases "r + 1 = k")
    case True
    then have "y = (q + 1) * k" using y by (simp add: algebra_simps)
    then have "y div k = q + 1" "y mod k = 0" using assms by simp_all
    then show ?thesis by (simp add: q_def)
  next
    case False
    with r have lt: "r + 1 < k" "0 \<le> r + 1" by simp_all
    have "y div k = q + (r + 1) div k" using assms by (subst y) simp
    moreover have "(r + 1) div k = 0" using lt by simp
    moreover have "y mod k = (r + 1) mod k" by (subst y) simp
    moreover have "(r + 1) mod k = r + 1" using lt by simp
    ultimately show ?thesis using r by (simp add: q_def)
  qed
qed

lemma mod_100_4: "(y::int) mod 100 = 0 \<Longrightarrow> y mod 4 = 0"
  using dvd_trans [of 4 100 y] by (simp add: mod_eq_0_iff_dvd)

lemma mod_400_100: "(y::int) mod 400 = 0 \<Longrightarrow> y mod 100 = 0"
  using dvd_trans [of 100 400 y] by (simp add: mod_eq_0_iff_dvd)

lemma days_before_year_Suc:
  "days_before_year (y + 1) = days_before_year y + (if is_leap y then 366 else 365)"
proof -
  define a :: int where "a = (if y mod 4 = 0 then 1 else 0)"
  define b :: int where "b = (if y mod 100 = 0 then 1 else 0)"
  define c :: int where "c = (if y mod 400 = 0 then 1 else 0)"
  define p4 where "p4 = y div 4"
  define p100 where "p100 = y div 100"
  define p400 where "p400 = y div 400"
  define q4 where "q4 = (y - 1) div 4"
  define q100 where "q100 = (y - 1) div 100"
  define q400 where "q400 = (y - 1) div 400"
  have 4: "p4 = q4 + a"
    unfolding a_def p4_def q4_def by (rule div_step) simp
  have 100: "p100 = q100 + b"
    unfolding b_def p100_def q100_def by (rule div_step) simp
  have 400: "p400 = q400 + c"
    unfolding c_def p400_def q400_def by (rule div_step) simp
  have next_year: "days_before_year (y + 1) = 365 * y + p4 - p100 + p400"
    by (simp add: days_before_year_def p4_def p100_def p400_def)
  have this_year: "days_before_year y = 365 * (y - 1) + q4 - q100 + q400"
    by (simp add: days_before_year_def Let_def q4_def q100_def q400_def)
  have step: "days_before_year (y + 1) = days_before_year y + 365 + (a - b + c)"
    unfolding next_year this_year 4 100 400 by (simp add: algebra_simps)
  have leap: "a - b + c = (if is_leap y then 1 else 0)"
  proof (cases "y mod 4 = 0")
    case False
    with mod_100_4 [of y] mod_400_100 [of y] show ?thesis
      by (auto simp: a_def b_def c_def is_leap_def)
  next
    case True
    with mod_400_100 [of y] show ?thesis
      by (auto simp: a_def b_def c_def is_leap_def)
  qed
  show ?thesis using step leap by simp
qed

lemma days_before_year_mono: "y \<le> y' \<Longrightarrow> days_before_year y \<le> days_before_year y'"
proof (induction y' rule: int_ge_induct)
  case base
  show ?case by simp
next
  case (step i)
  then show ?case by (simp add: days_before_year_Suc)
qed

lemma month_cases:
  "1 \<le> m \<Longrightarrow> m \<le> 12 \<Longrightarrow>
   m = 1 \<or> m = 2 \<or> m = 3 \<or> m = 4 \<or> m = 5 \<or> m = 6 \<or> m = 7 \<or> m = 8 \<or> m = 9 \<or> m = 10
   \<or> m = 11 \<or> m = (12::int)"
  by presburger

lemma days_before_month_table:
  "days_before_month y 1 = 0"
  "days_before_month y 2 = 31"
  "days_before_month y 3 = 59 + (if is_leap y then 1 else 0)"
  "days_before_month y 4 = 90 + (if is_leap y then 1 else 0)"
  "days_before_month y 5 = 120 + (if is_leap y then 1 else 0)"
  "days_before_month y 6 = 151 + (if is_leap y then 1 else 0)"
  "days_before_month y 7 = 181 + (if is_leap y then 1 else 0)"
  "days_before_month y 8 = 212 + (if is_leap y then 1 else 0)"
  "days_before_month y 9 = 243 + (if is_leap y then 1 else 0)"
  "days_before_month y 10 = 273 + (if is_leap y then 1 else 0)"
  "days_before_month y 11 = 304 + (if is_leap y then 1 else 0)"
  "days_before_month y 12 = 334 + (if is_leap y then 1 else 0)"
  by (simp_all add: days_before_month_def DAYS_BEFORE_MONTH_def)

lemma days_in_month_table:
  "days_in_month y 1 = 31"
  "days_in_month y 2 = (if is_leap y then 29 else 28)"
  "days_in_month y 3 = 31"
  "days_in_month y 4 = 30"
  "days_in_month y 5 = 31"
  "days_in_month y 6 = 30"
  "days_in_month y 7 = 31"
  "days_in_month y 8 = 31"
  "days_in_month y 9 = 30"
  "days_in_month y 10 = 31"
  "days_in_month y 11 = 30"
  "days_in_month y 12 = 31"
  by (simp_all add: days_in_month_def DAYS_IN_MONTH_def)

lemma days_before_month_step:
  assumes "1 \<le> m" and "m \<le> 11"
  shows "days_before_month y (m + 1) = days_before_month y m + days_in_month y m"
proof -
  from assms have "1 \<le> m" "m \<le> 12" by simp_all
  from month_cases [OF this] assms(2) show ?thesis
    by (elim disjE) (simp_all add: days_before_month_table days_in_month_table)
qed

lemma days_before_month_last:
  "days_before_month y 12 + days_in_month y 12 = (if is_leap y then 366 else 365)"
  by (simp add: days_before_month_table days_in_month_table)

lemma days_in_month_pos:
  assumes "1 \<le> m" and "m \<le> 12"
  shows "28 \<le> days_in_month y m"
  using month_cases [OF assms]
  by (elim disjE) (simp_all add: days_in_month_table)

lemma days_before_month_mono:
  assumes "m \<le> m'" and "1 \<le> m" and "m' \<le> 12"
  shows "days_before_month y m \<le> days_before_month y m'"
  using assms
proof (induction m' rule: int_ge_induct)
  case base
  show ?case by simp
next
  case (step i)
  then have "days_before_month y (i + 1) = days_before_month y i + days_in_month y i"
    by (intro days_before_month_step) auto
  moreover have "28 \<le> days_in_month y i"
    using step by (intro days_in_month_pos) auto
  ultimately show ?case using step by simp
qed

lemma valid_date_proper: "valid_date d \<Longrightarrow> proper_date d"
  by (simp add: valid_date_def proper_date_def)

lemma days_before_month_nonneg:
  assumes "1 \<le> m" and "m \<le> 12"
  shows "0 \<le> days_before_month y m"
  using days_before_month_mono [of 1 m y] assms by (simp add: days_before_month_table)

lemma days_through_month:
  assumes "1 \<le> m" and "m \<le> 12"
  shows "days_before_month y m + days_in_month y m \<le> (if is_leap y then 366 else 365)"
proof (cases "m = 12")
  case True
  then show ?thesis using days_before_month_last [of y] by simp
next
  case False
  with assms have m: "m \<le> 11" by simp
  have "days_before_month y m + days_in_month y m = days_before_month y (m + 1)"
    using days_before_month_step [OF assms(1) m] by simp
  also have "\<dots> \<le> days_before_month y 12"
    using assms m by (intro days_before_month_mono) auto
  also have "\<dots> \<le> (if is_leap y then 366 else 365)"
    using days_before_month_last [of y] days_in_month_pos [of 12 y] by simp
  finally show ?thesis .
qed

lemma next_day_proper: "proper_date d \<Longrightarrow> proper_date (next_day d)"
  using days_in_month_pos [of "month d + 1" "year d"] days_in_month_pos [of 1 "year d + 1"]
  by (auto simp: proper_date_def next_day_def)

lemma toordinal_next_day:
  assumes "proper_date d"
  shows "toordinal (next_day d) = toordinal d + 1"
proof (cases "day d < days_in_month (year d) (month d)")
  case True
  then show ?thesis by (simp add: next_day_def toordinal_def)
next
  case False
  with assms have last: "day d = days_in_month (year d) (month d)"
    by (simp add: proper_date_def)
  show ?thesis
  proof (cases "month d < 12")
    case True
    with assms have "days_before_month (year d) (month d + 1)
        = days_before_month (year d) (month d) + days_in_month (year d) (month d)"
      by (intro days_before_month_step) (auto simp: proper_date_def)
    with False True last show ?thesis by (simp add: next_day_def toordinal_def)
  next
    case notlt: False
    with assms have m: "month d = 12" by (simp add: proper_date_def)
    have "toordinal (next_day d) = days_before_year (year d + 1) + 1"
      using False notlt by (simp add: next_day_def toordinal_def days_before_month_table)
    also have "\<dots> = days_before_year (year d) + (if is_leap (year d) then 366 else 365) + 1"
      by (simp add: days_before_year_Suc)
    also have "\<dots> = toordinal d + 1"
      using last m days_before_month_last [of "year d"] by (simp add: toordinal_def)
    finally show ?thesis .
  qed
qed

lemma toordinal_less:
  assumes a: "proper_date a" and b: "proper_date b"
    and lt: "year a < year b \<or> (year a = year b \<and> (month a < month b \<or>
       (month a = month b \<and> day a < day b)))"
  shows "toordinal a < toordinal b"
proof -
  have a_in: "days_before_month (year a) (month a) + day a
      \<le> days_before_month (year a) (month a) + days_in_month (year a) (month a)"
    using a by (simp add: proper_date_def)
  have b_pos: "0 \<le> days_before_month (year b) (month b)" "1 \<le> day b"
    using b days_before_month_nonneg [of "month b" "year b"] by (simp_all add: proper_date_def)
  consider (y) "year a < year b"
    | (m) "year a = year b" "month a < month b"
    | (d) "year a = year b" "month a = month b" "day a < day b"
    using lt by blast
  then show ?thesis
  proof cases
    case y
    have "toordinal a \<le> days_before_year (year a) + (if is_leap (year a) then 366 else 365)"
      using a_in days_through_month [of "month a" "year a"] a
      by (simp add: toordinal_def proper_date_def)
    also have "\<dots> = days_before_year (year a + 1)"
      by (simp add: days_before_year_Suc)
    also have "\<dots> \<le> days_before_year (year b)"
      using y by (intro days_before_year_mono) simp
    also have "\<dots> < toordinal b"
      using b_pos by (simp add: toordinal_def)
    finally show ?thesis .
  next
    case m
    from a b m have range: "1 \<le> month a" "month a \<le> 11" "month b \<le> 12"
      by (simp_all add: proper_date_def)
    have "days_before_month (year a) (month a) + day a \<le> days_before_month (year a) (month a + 1)"
      using a_in days_before_month_step [OF range(1,2), of "year a"] by simp
    also have "\<dots> \<le> days_before_month (year a) (month b)"
      using m range by (intro days_before_month_mono) auto
    finally show ?thesis using m b_pos by (simp add: toordinal_def)
  next
    case d
    then show ?thesis by (simp add: toordinal_def)
  qed
qed

lemma toordinal_le_iff:
  assumes "proper_date a" and "proper_date b"
  shows "toordinal a \<le> toordinal b \<longleftrightarrow> date_le a b"
proof
  assume "date_le a b"
  then consider "year a < year b \<or> (year a = year b \<and> (month a < month b \<or>
       (month a = month b \<and> day a < day b)))"
    | "year a = year b" "month a = month b" "day a = day b"
    unfolding date_le_def by linarith
  then show "toordinal a \<le> toordinal b"
  proof cases
    case 1
    from toordinal_less [OF assms this] show ?thesis by simp
  next
    case 2
    then show ?thesis by (simp add: toordinal_def)
  qed
next
  assume le: "toordinal a \<le> toordinal b"
  show "date_le a b"
  proof (rule ccontr)
    assume "\<not> date_le a b"
    then have "year b < year a \<or> (year b = year a \<and> (month b < month a \<or>
       (month b = month a \<and> day b < day a)))"
      unfolding date_le_def by linarith
    from toordinal_less [OF assms(2) assms(1) this] le show False by simp
  qed
qed

lemma toordinal_inj:
  fixes a b :: date
  assumes "proper_date a" and "proper_date b" and "toordinal a = toordinal b"
  shows "a = b"
proof -
  have "date_le a b" "date_le b a"
    using assms toordinal_le_iff [of a b] toordinal_le_iff [of b a] by simp_all
  then have "year a = year b \<and> month a = month b \<and> day a = day b"
    unfolding date_le_def by linarith
  then show ?thesis by simp
qed

lemma days_from_set:
  "proper_date d \<Longrightarrow>
   set (days_from d n)
     = {x. proper_date x \<and> toordinal d \<le> toordinal x \<and> toordinal x < toordinal d + int n}"
proof (induction n arbitrary: d)
  case 0
  show ?case by simp
next
  case (Suc n)
  note IH = Suc.IH [OF next_day_proper [OF Suc.prems]]
  have next_ord: "toordinal (next_day d) = toordinal d + 1"
    by (rule toordinal_next_day [OF Suc.prems])
  show ?case
  proof (intro set_eqI iffI)
    fix x assume "x \<in> set (days_from d (Suc n))"
    then consider "x = d" | "x \<in> set (days_from (next_day d) n)" by auto
    then show "x \<in> {x. proper_date x \<and> toordinal d \<le> toordinal x
        \<and> toordinal x < toordinal d + int (Suc n)}"
    proof cases
      case 1
      with Suc.prems show ?thesis by simp
    next
      case 2
      with IH next_ord show ?thesis by simp
    qed
  next
    fix x assume x: "x \<in> {x. proper_date x \<and> toordinal d \<le> toordinal x
        \<and> toordinal x < toordinal d + int (Suc n)}"
    show "x \<in> set (days_from d (Suc n))"
    proof (cases "toordinal x = toordinal d")
      case True
      with x Suc.prems have "x = d" by (intro toordinal_inj) simp_all
      then show ?thesis by simp
    next
      case False
      with x IH next_ord have "x \<in> set (days_from (next_day d) n)" by simp
      then show ?thesis by simp
    qed
  qed
qed

lemma days_from_distinct: "proper_date d \<Longrightarrow> distinct (days_from d n)"
proof (induction n arbitrary: d)
  case 0
  show ?case by simp
next
  case (Suc n)
  have "d \<notin> set (days_from (next_day d) n)"
    using days_from_set [OF next_day_proper [OF Suc.prems], of n]
      toordinal_next_day [OF Suc.prems] by simp
  with Suc.IH [OF next_day_proper [OF Suc.prems]] show ?case by simp
qed

lemma date_range_distinct: "proper_date s \<Longrightarrow> distinct (date_range s e)"
  by (simp add: date_range_def days_from_distinct)

lemma date_range_member:
  assumes "proper_date s" and "proper_date e" and "proper_date x"
  shows "x \<in> set (date_range s e) \<longleftrightarrow> date_le s x \<and> date_le x e"
proof -
  have "x \<in> set (date_range s e) \<longleftrightarrow> toordinal s \<le> toordinal x \<and> toordinal x \<le> toordinal e"
    using assms by (auto simp: date_range_def days_from_set)
  then show ?thesis
    using assms by (simp add: toordinal_le_iff)
qed

lemma date_range_proper: "proper_date s \<Longrightarrow> x \<in> set (date_range s e) \<Longrightarrow> proper_date x"
  by (simp add: date_range_def days_from_set)

subsection \<open>The heatmap counts\<close>

lemma increment_rows_keys: "map fst (increment_rows d rows) = map fst rows"
  by (induction rows) (auto simp: increment_rows_def)

lemma increment_rows_sum:
  "distinct (map fst rows) \<Longrightarrow>
   sum_list (map snd (increment_rows d rows))
     = sum_list (map snd rows) + (if d \<in> fst ` set rows then 1 else 0)"
proof (induction rows)
  case Nil
  show ?case by (simp add: increment_rows_def)
next
  case (Cons x rows)
  obtain k c where x: "x = (k, c)" by (cases x)
  have step: "increment_rows d (x # rows)
      = (if k = d then (k, c + 1) else (k, c)) # increment_rows d rows"
    by (simp add: increment_rows_def x)
  from Cons x show ?case
    unfolding step by (auto simp: image_iff)
qed

lemma increment_rows_lookup:
  "map_of (increment_rows d rows) k
     = (case map_of rows k of None \<Rightarrow> None
        | Some c \<Rightarrow> Some (if k = d then c + 1 else c))"
  by (induction rows) (auto simp: increment_rows_def)

lemma heatmap_loop_result:
  "heatmap_loop L rows es = Inr rows' \<Longrightarrow> distinct (map fst rows) \<Longrightarrow>
   map fst rows' = map fst rows
   \<and> sum_list (map snd rows')
       = sum_list (map snd rows)
         + length (filter (\<lambda>e. \<exists>d. event_date L e = Some d \<and> d \<in> fst ` set rows) es)
   \<and> (\<forall>k c. map_of rows k = Some c \<longrightarrow>
         map_of rows' k = Some (c + length (filter (\<lambda>e. event_date L e = Some k) es)))"
proof (induction es arbitrary: rows)
  case Nil
  then show ?case by simp
next
  case (Cons e es)
  from Cons.prems(1) obtain dt where
    dt: "parse_start L e = Inr dt"
    and rest: "heatmap_loop L (increment_rows (date_of dt) rows) es = Inr rows'"
    by (auto split: sum.splits)
  have date: "event_date L e = Some (date_of dt)"
    using dt by (simp add: event_date_def)
  let ?rows = "increment_rows (date_of dt) rows"
  have dist: "distinct (map fst ?rows)"
    using Cons.prems(2) by (simp add: increment_rows_keys)
  have keyset: "fst ` set ?rows = fst ` set rows"
    using increment_rows_keys [of "date_of dt" rows] by (metis set_map)
  note IH = Cons.IH [OF rest dist]
  have keys: "map fst rows' = map fst rows"
    using IH by (simp add: increment_rows_keys)
  have total: "sum_list (map snd rows')
       = sum_list (map snd rows)
         + length (filter (\<lambda>e. \<exists>d. event_date L e = Some d \<and> d \<in> fst ` set rows) (e # es))"
    using IH increment_rows_sum [OF Cons.prems(2), of "date_of dt"] date keyset by simp
  have each: "map_of rows' k = Some (c + length (filter (\<lambda>e. event_date L e = Some k) (e # es)))"
    if "map_of rows k = Some c" for k c
  proof -
    have "map_of ?rows k = Some (if k = date_of dt then c + 1 else c)"
      using that by (simp add: increment_rows_lookup)
    with IH have "map_of rows' k
        = Some ((if k = date_of dt then c + 1 else c)
                + length (filter (\<lambda>e. event_date L e = Some k) es))"
      by blast
    then show ?thesis using date by auto
  qed
  from keys total each show ?case by blast
qed

lemma heatmap_loop_total:
  "\<forall>e\<in>set es. event_date L e \<noteq> None \<Longrightarrow> \<exists>rows'. heatmap_loop L rows es = Inr rows'"
proof (induction es arbitrary: rows)
  case Nil
  show ?case by simp
next
  case (Cons e es)
  from Cons.prems obtain dt where "parse_start L e = Inr dt"
    by (auto simp: event_date_def split: sum.splits)
  moreover from Cons.IH [of "increment_rows (date_of dt) rows"] Cons.prems
  obtain rows' where "heatmap_loop L (increment_rows (date_of dt) rows) es = Inr rows'"
    by auto
  ultimately show ?case by simp
qed

lemma heatmap_counts_result:
  assumes s: "proper_date s" and e: "proper_date e"
    and valid: "list_all (\<lambda>ev. case event_date L ev of None \<Rightarrow> True
                              | Some d \<Rightarrow> valid_date d) events"
    and res: "heatmap_counts L events s e = Inr rows"
  shows "map fst rows = date_range s e"
    and "(d, c) \<in> set rows \<Longrightarrow>
         date_le s d \<and> date_le d e
         \<and> c = length (filter (\<lambda>ev. event_date L ev = Some d) events)"
    and "sum_list (map snd rows)
         = length (filter (\<lambda>ev. \<exists>d. event_date L ev = Some d \<and> date_le s d \<and> date_le d e)
                     events)"
proof -
  let ?rows0 = "map (\<lambda>d. (d, 0::nat)) (date_range s e)"
  have keys0: "map fst ?rows0 = date_range s e" by (simp add: comp_def)
  have dist0: "distinct (map fst ?rows0)"
    using date_range_distinct [OF s, of e] by (simp add: comp_def)
  have sum0: "sum_list (map snd ?rows0) = 0" by (simp add: comp_def)
  note loop = heatmap_loop_result [OF res [unfolded heatmap_counts_def] dist0]
  from loop keys0 show keys: "map fst rows = date_range s e" by simp
  have in_range: "(\<exists>d. event_date L ev = Some d \<and> d \<in> fst ` set ?rows0)
      \<longleftrightarrow> (\<exists>d. event_date L ev = Some d \<and> date_le s d \<and> date_le d e)"
    if ev: "ev \<in> set events" for ev
  proof (cases "event_date L ev")
    case None
    then show ?thesis by simp
  next
    case (Some d)
    with valid ev have "valid_date d" by (auto simp: list_all_iff)
    then have "proper_date d" by (rule valid_date_proper)
    from date_range_member [OF s e this] Some show ?thesis
      by (simp add: image_comp comp_def)
  qed
  have "filter (\<lambda>ev. \<exists>d. event_date L ev = Some d \<and> d \<in> fst ` set ?rows0) events
      = filter (\<lambda>ev. \<exists>d. event_date L ev = Some d \<and> date_le s d \<and> date_le d e) events"
    by (rule filter_cong [OF refl]) (rule in_range)
  with loop sum0 show "sum_list (map snd rows)
         = length (filter (\<lambda>ev. \<exists>d. event_date L ev = Some d \<and> date_le s d \<and> date_le d e)
                     events)"
    by simp
  assume mem: "(d, c) \<in> set rows"
  have dist: "distinct (map fst rows)"
    using keys date_range_distinct [OF s, of e] by simp
  with mem have look: "map_of rows d = Some c" by simp
  from mem have "d \<in> set (map fst rows)" by force
  with keys have d: "d \<in> set (date_range s e)" by simp
  then have "map_of ?rows0 d = Some 0"
    by (simp add: map_of_map_restrict restrict_map_def)
  with loop have "map_of rows d
      = Some (0 + length (filter (\<lambda>ev. event_date L ev = Some d) events))"
    by blast
  with look have c: "c = length (filter (\<lambda>ev. event_date L ev = Some d) events)" by simp
  have "proper_date d" using d by (rule date_range_proper [OF s])
  from date_range_member [OF s e this] d c
  show "date_le s d \<and> date_le d e
         \<and> c = length (filter (\<lambda>ev. event_date L ev = Some d) events)"
    by simp
qed

text \<open>
  C10. In the heatmap the rows are the days from \<open>start_date\<close> to \<open>end_date\<close>, both
  included; the count of a day is the number of events whose date is that day, so an
  event whose date is outside the range adds to no count, and the counts sum to the number
  of events whose date is in the range, which is at most, and can be less than, the number
  of events passed in. The loop does return the rows when the start of every event parses.
\<close>

theorem heatmap_in_range:
  assumes "valid_date start_date" and "valid_date end_date"
    and "list_all (\<lambda>ev. case event_date L ev of None \<Rightarrow> True
                         | Some d \<Rightarrow> valid_date d) events"
  shows "(list_all (\<lambda>ev. event_date L ev \<noteq> None) events \<longrightarrow>
            (\<exists>rows. heatmap_counts L events start_date end_date = Inr rows))
     \<and> (\<forall>rows. heatmap_counts L events start_date end_date = Inr rows \<longrightarrow>
          map fst rows = date_range start_date end_date
          \<and> (\<forall>(d, c)\<in>set rows.
                date_le start_date d \<and> date_le d end_date
                \<and> c = length (filter (\<lambda>ev. event_date L ev = Some d) events))
          \<and> sum_list (map snd rows)
              = length (filter (\<lambda>ev. \<exists>d. event_date L ev = Some d
                                   \<and> date_le start_date d \<and> date_le d end_date) events)
          \<and> sum_list (map snd rows) \<le> length events)"
proof -
  note s = valid_date_proper [OF assms(1)] and e = valid_date_proper [OF assms(2)]
  have total: "\<exists>rows. heatmap_counts L events start_date end_date = Inr rows"
    if "list_all (\<lambda>ev. event_date L ev \<noteq> None) events"
    using that heatmap_loop_total [of events L] by (simp add: heatmap_counts_def list_all_iff)
  have part: "map fst rows = date_range start_date end_date
          \<and> (\<forall>(d, c)\<in>set rows.
                date_le start_date d \<and> date_le d end_date
                \<and> c = length (filter (\<lambda>ev. event_date L ev = Some d) events))
          \<and> sum_list (map snd rows)
              = length (filter (\<lambda>ev. \<exists>d. event_date L ev = Some d
                                   \<and> date_le start_date d \<and> date_le d end_date) events)
          \<and> sum_list (map snd rows) \<le> length events"
    if res: "heatmap_counts L events start_date end_date = Inr rows" for rows
  proof -
    note r = heatmap_counts_result [OF s e assms(3) res]
    have "sum_list (map snd rows) \<le> length events"
      unfolding r(3) by (rule length_filter_le)
    with r(1) r(2) r(3) show ?thesis by blast
  qed
  show ?thesis
  proof (intro conjI)
    show "list_all (\<lambda>ev. event_date L ev \<noteq> None) events \<longrightarrow>
            (\<exists>rows. heatmap_counts L events start_date end_date = Inr rows)"
      using total by blast
    show "\<forall>rows. heatmap_counts L events start_date end_date = Inr rows \<longrightarrow>
          map fst rows = date_range start_date end_date
          \<and> (\<forall>(d, c)\<in>set rows.
                date_le start_date d \<and> date_le d end_date
                \<and> c = length (filter (\<lambda>ev. event_date L ev = Some d) events))
          \<and> sum_list (map snd rows)
              = length (filter (\<lambda>ev. \<exists>d. event_date L ev = Some d
                                   \<and> date_le start_date d \<and> date_le d end_date) events)
          \<and> sum_list (map snd rows) \<le> length events"
      using part by blast
  qed
qed

lemma jan16_valid: "valid_date jan16"
  by code_simp

lemma mixed_events_valid:
  "list_all (\<lambda>ev. case event_date iso_stdlib ev of None \<Rightarrow> True
                   | Some d \<Rightarrow> valid_date d) mixed_events"
  by code_simp

lemma mixed_events_heatmap: "heatmap_counts iso_stdlib mixed_events jan16 jan16 = Inr [(jan16, 1)]"
  by code_simp

theorem heatmap_in_range_witness:
  "valid_date jan16
   \<and> list_all (\<lambda>ev. case event_date iso_stdlib ev of None \<Rightarrow> True
                     | Some d \<Rightarrow> valid_date d) mixed_events
   \<and> list_all (\<lambda>ev. event_date iso_stdlib ev \<noteq> None) mixed_events
   \<and> heatmap_counts iso_stdlib mixed_events jan16 jan16 = Inr [(jan16, 1)]
   \<and> length (filter (\<lambda>ev. \<exists>d. event_date iso_stdlib ev = Some d
                         \<and> date_le jan16 d \<and> date_le d jan16) mixed_events) = 1
   \<and> length mixed_events = 4"
proof -
  have len: "length mixed_events = 4"
    by (simp add: mixed_events_def example_events_def)
  from heatmap_in_range [OF jan16_valid jan16_valid mixed_events_valid]
  have "sum_list (map snd [(jan16, 1::nat)])
      = length (filter (\<lambda>ev. \<exists>d. event_date iso_stdlib ev = Some d
                         \<and> date_le jan16 d \<and> date_le d jan16) mixed_events)"
    using mixed_events_heatmap by blast
  then have "length (filter (\<lambda>ev. \<exists>d. event_date iso_stdlib ev = Some d
                         \<and> date_le jan16 d \<and> date_le d jan16) mixed_events) = 1"
    by simp
  with jan16_valid mixed_events_valid mixed_events_parsed mixed_events_heatmap len
  show ?thesis by (intro conjI)
qed

subsection \<open>Remote calls of the views\<close>

lemma upcoming_view_calls:
  "calls (upcoming_view L svc start_date end_date n)
     = [Events_list (isoformat (combine start_date time_min) @ ''Z'')
          (isoformat (combine end_date time_max) @ ''Z'') n]"
  by (simp add: upcoming_view_def Let_def split: sum.splits)

lemma upcoming_view_list_failure:
  "events_list svc (isoformat (combine start_date time_min) @ ''Z'')
      (isoformat (combine end_date time_max) @ ''Z'') n = Inl err \<Longrightarrow>
   raised (upcoming_view L svc start_date end_date n) = Some err
   \<and> shown (upcoming_view L svc start_date end_date n) = []"
  by (simp add: upcoming_view_def Let_def)

lemma analytics_view_calls:
  "calls (analytics_view L svc analytics_start analytics_end)
     = (if date_le analytics_start analytics_end
        then [Events_list (isoformat (combine analytics_start time_min) @ ''Z'')
                (isoformat (combine analytics_end time_max) @ ''Z'') 1000]
        else [])"
  by (simp add: analytics_view_def Let_def split: sum.splits option.splits)

lemma analytics_view_list_failure:
  "date_le analytics_start analytics_end \<Longrightarrow>
   events_list svc (isoformat (combine analytics_start time_min) @ ''Z'')
      (isoformat (combine analytics_end time_max) @ ''Z'') 1000 = Inl err \<Longrightarrow>
   raised (analytics_view L svc analytics_start analytics_end) = Some err
   \<and> shown (analytics_view L svc analytics_start analytics_end) = []"
  by (simp add: analytics_view_def Let_def)

lemma analytics_view_invalid_range:
  "\<not> date_le analytics_start analytics_end \<Longrightarrow>
   analytics_view L svc analytics_start analytics_end
     = \<lparr>raised = None, calls = [], shown = [Error ''End date must be after start date'']\<rparr>"
  by (simp add: analytics_view_def)

lemma create_view_empty_title:
  "submit_button f \<Longrightarrow> event_title f = [] \<Longrightarrow>
   create_view svc f
     = \<lparr>raised = None, calls = [], shown = [Error ''Please enter an event title'']\<rparr>"
  by (simp add: create_view_def)

lemma create_view_insert_caught:
  "raised (create_view svc f) = Some err \<Longrightarrow> err = KeyError \<and> calls (create_view svc f) = []"
  by (auto simp: create_view_def Let_def split: if_splits option.splits sum.splits)

lemma create_view_calls: "length (calls (create_view svc f)) \<le> 1"
  by (simp add: create_view_def Let_def split: option.splits sum.splits)

text \<open>
  C8, at an input where the code departs from it. With a service whose calls fail, the
  insert of the create view is caught and shown as an error message, but the listing of
  the upcoming view and the listing of the analytics view are not: the exception leaves
  the script and the view shows nothing. Each view issues its call once.
\<close>

theorem list_failure_not_caught:
  "upcoming_view iso_stdlib failing_service jan15 jan16 10
     = \<lparr>raised = Some (HttpError ''503''),
        calls = [Events_list ''2024-01-15T00:00:00Z'' ''2024-01-16T23:59:59.999999Z'' 10],
        shown = []\<rparr>
   \<and> analytics_view iso_stdlib failing_service jan15 jan16
     = \<lparr>raised = Some (HttpError ''503''),
        calls = [Events_list ''2024-01-15T00:00:00Z'' ''2024-01-16T23:59:59.999999Z'' 1000],
        shown = []\<rparr>
   \<and> raised (create_view failing_service sample_form) = None
   \<and> shown (create_view failing_service sample_form)
     = [Error_exception ''Failed to create event: '' (HttpError ''503'')]"
  by code_simp

text \<open>
  C9, at an input where the code departs from it. With an end date before the start date
  the upcoming view issues the remote listing all the same and reports nothing, while the
  analytics view reports the range and issues no call, and the create view reports an
  empty title and issues no call.
\<close>

theorem invalid_range_still_listed:
  "\<not> date_le jan16 jan15
   \<and> calls (upcoming_view iso_stdlib sample_service jan16 jan15 10)
     = [Events_list ''2024-01-16T00:00:00Z'' ''2024-01-15T23:59:59.999999Z'' 10]
   \<and> raised (upcoming_view iso_stdlib sample_service jan16 jan15 10) = None
   \<and> Error ''End date must be after start date''
       \<notin> set (shown (upcoming_view iso_stdlib sample_service jan16 jan15 10))
   \<and> analytics_view iso_stdlib sample_service jan16 jan15
     = \<lparr>raised = None, calls = [], shown = [Error ''End date must be after start date'']\<rparr>
   \<and> create_view sample_service (sample_form\<lparr>event_title := []\<rparr>)
     = \<lparr>raised = None, calls = [], shown = [Error ''Please enter an event title'']\<rparr>"
  by code_simp

end
